theory Spec2Isabelle
  imports Main "HOL-Library.Word"
begin

section \<open>The in-memory B-tree of btree.c\<close>

text \<open>
  The tree of \<^verbatim>\<open>btree.c\<close> is a pointer structure with strictly hierarchical ownership:
  the handle owns the root, every node owns the children in its slots
  \<open>0 .. num_keys\<close>. The embedding therefore holds a child inside its parent:
  a pointer slot is a \<open>btree_node option\<close> (\<open>None\<close> is \<^verbatim>\<open>NULL\<close>), and the mutation of a
  child through \<^verbatim>\<open>node->children[i]\<close> is the replacement of slot \<open>i\<close> by the new child.

  The two arrays of a node are lists; their lengths (\<open>BTREE_MAX_KEYS\<close> and
  \<open>BTREE_ORDER\<close>) are fixed when the node is allocated and no operation changes them.
  The slots above \<open>num_keys\<close> keep whatever the code left there, as in C. Every read
  or write of an array states what happens out of range:
  \<^item> an index outside the array is the fault \<open>OutOfBounds\<close>;
  \<^item> following a \<^verbatim>\<open>NULL\<close> pointer is the fault \<open>NullDeref\<close>;
  \<^item> reading a pointer other than \<^verbatim>\<open>NULL\<close> from a slot above \<open>num_keys\<close> is the fault
    \<open>StaleSlot\<close>: in C such a slot may still hold the address of a node that a split
    handed to a sibling, and the ownership tree of this embedding cannot follow such an
    alias. The embedding stops there instead of computing something the C code does
    not do.
  The first two are undefined behaviour of the C code. A result \<open>Inr\<close> is a normal
  return.
\<close>

type_synonym u64 = "64 word"

datatype fault = NullDeref | OutOfBounds | StaleSlot

definition BTREE_ORDER :: int where
  "BTREE_ORDER = 4"

definition BTREE_MAX_KEYS :: int where
  "BTREE_MAX_KEYS = BTREE_ORDER - 1"

definition BTREE_MIN_KEYS :: int where
  "BTREE_MIN_KEYS = BTREE_MAX_KEYS div 2"

datatype btree_node =
  Node (is_leaf: bool) (num_keys: int) (keys: "u64 list") (children: "btree_node option list")

record btree_root =
  root :: "btree_node option"

subsection \<open>Field and array access\<close>

definition set_is_leaf :: "btree_node \<Rightarrow> bool \<Rightarrow> btree_node" where
  "set_is_leaf n b = Node b (num_keys n) (keys n) (children n)"

definition set_num_keys :: "btree_node \<Rightarrow> int \<Rightarrow> btree_node" where
  "set_num_keys n k = Node (is_leaf n) k (keys n) (children n)"

definition key_at :: "btree_node \<Rightarrow> int \<Rightarrow> fault + u64" where
  "key_at n i =
     (if 0 \<le> i \<and> i < int (length (keys n)) then Inr (keys n ! nat i) else Inl OutOfBounds)"

definition set_key :: "btree_node \<Rightarrow> int \<Rightarrow> u64 \<Rightarrow> fault + btree_node" where
  "set_key n i k =
     (if 0 \<le> i \<and> i < int (length (keys n))
      then Inr (Node (is_leaf n) (num_keys n) ((keys n)[nat i := k]) (children n))
      else Inl OutOfBounds)"

definition child_at :: "btree_node \<Rightarrow> int \<Rightarrow> fault + btree_node option" where
  "child_at n i =
     (if 0 \<le> i \<and> i < int (length (children n))
      then (if i \<le> num_keys n \<or> children n ! nat i = None then Inr (children n ! nat i)
            else Inl StaleSlot)
      else Inl OutOfBounds)"

definition set_child :: "btree_node \<Rightarrow> int \<Rightarrow> btree_node option \<Rightarrow> fault + btree_node" where
  "set_child n i c =
     (if 0 \<le> i \<and> i < int (length (children n))
      then Inr (Node (is_leaf n) (num_keys n) (keys n) ((children n)[nat i := c]))
      else Inl OutOfBounds)"

subsection \<open>The allocator\<close>

text \<open>
  \<^verbatim>\<open>kzalloc\<close> may fail. Whether its \<open>n\<close>-th call succeeds is decided by the environment,
  the oracle \<open>ok\<close>. The allocator state counts the calls made so far and the objects
  allocated and not yet freed. A fresh node is zero-filled: not a leaf, no keys, all
  key slots 0 and all pointer slots \<^verbatim>\<open>NULL\<close>.
\<close>

record kmem =
  calls :: nat
  live :: nat

definition kzalloc :: "(nat \<Rightarrow> bool) \<Rightarrow> kmem \<Rightarrow> bool \<times> kmem" where
  "kzalloc ok m =
     (if ok (calls m) then (True, \<lparr>calls = Suc (calls m), live = Suc (live m)\<rparr>)
      else (False, \<lparr>calls = Suc (calls m), live = live m\<rparr>))"

definition kfree :: "kmem \<Rightarrow> kmem" where
  "kfree m = \<lparr>calls = calls m, live = live m - 1\<rparr>"

definition zero_node :: btree_node where
  "zero_node = Node False 0 (replicate (nat BTREE_MAX_KEYS) 0) (replicate (nat BTREE_ORDER) None)"

subsection \<open>btree_init\<close>

definition btree_init :: "(nat \<Rightarrow> bool) \<Rightarrow> kmem \<Rightarrow> btree_root option \<times> kmem" where
  "btree_init ok m =
     (case kzalloc ok m of
        (False, m1) \<Rightarrow> (None, m1)
      | (True, m1) \<Rightarrow>
          (case kzalloc ok m1 of
             (False, m2) \<Rightarrow> (None, kfree m2)
           | (True, m2) \<Rightarrow>
               (Some \<lparr>root = Some (set_num_keys (set_is_leaf zero_node True) 0)\<rparr>, m2)))"

subsection \<open>btree_search\<close>

text \<open>
  The inner \<^verbatim>\<open>for\<close> loop of \<^verbatim>\<open>btree_search\<close>: it returns \<open>(True, i)\<close> where the code
  returns true, and \<open>(False, i)\<close> where the loop ends or breaks with index \<open>i\<close>.
\<close>

function search_scan :: "u64 \<Rightarrow> btree_node \<Rightarrow> int \<Rightarrow> fault + (bool \<times> int)" where
  "search_scan key n i =
     (if i < num_keys n then
        (case key_at n i of
           Inl e \<Rightarrow> Inl e
         | Inr k \<Rightarrow>
             if key < k then Inr (False, i)
             else if key = k then Inr (True, i)
             else search_scan key n (i + 1))
      else Inr (False, i))"
  by pat_completeness auto
termination
  by (relation "measure (\<lambda>(key, n, i). nat (num_keys n - i))") auto

declare search_scan.simps [simp del]

subsection \<open>Termination measure\<close>

text \<open>
  The height of a node over all its pointer slots (the slots above \<open>num_keys\<close>
  included). Every recursive descent of the code goes from a node to the contents of one
  of its slots, or of a slot of the node after a split, and the height decreases.
\<close>

primrec height :: "btree_node \<Rightarrow> nat" where
  "height (Node l n ks cs) =
     Suc (foldr max (map (case_option 0 id) (map (map_option height) cs)) 0)"

definition below :: "nat \<Rightarrow> btree_node \<Rightarrow> bool" where
  "below h n \<longleftrightarrow> (\<forall>c. Some c \<in> set (children n) \<longrightarrow> height c < h)"

lemma foldr_max_ge: "x \<in> set xs \<Longrightarrow> x \<le> foldr max xs (0::nat)"
  by (induction xs) (auto simp: max_def)

lemma foldr_max_less: "(\<forall>x \<in> set xs. x < h) \<Longrightarrow> 0 < h \<Longrightarrow> foldr max xs (0::nat) < h"
  by (induction xs) (auto simp: max_def)

lemma height_slot: "Some c \<in> set (children n) \<Longrightarrow> height c < height n"
proof (cases n)
  case (Node l k ks cs)
  assume "Some c \<in> set (children n)"
  with Node have "Some c \<in> set cs" by simp
  then have "height c \<in> set (map (case_option 0 id) (map (map_option height) cs))"
    by force
  from foldr_max_ge [OF this] Node show ?thesis by simp
qed

lemma below_height: "below (height n) n"
  by (simp add: below_def height_slot)

lemma height_below: "below h n \<Longrightarrow> 0 < h \<Longrightarrow> height n \<le> h"
proof (cases n)
  case (Node l k ks cs)
  assume b: "below h n" and h: "0 < h"
  have "\<forall>x \<in> set (map (case_option 0 id) (map (map_option height) cs)). x < h"
    using b h Node by (auto simp: below_def split: option.splits)
  from foldr_max_less [OF this h] Node show ?thesis by simp
qed

lemma child_at_mem: "child_at n i = Inr (Some c) \<Longrightarrow> Some c \<in> set (children n)"
  by (auto simp: child_at_def split: if_splits) (metis nth_mem nat_less_iff)

lemma child_at_height: "child_at n i = Inr (Some c) \<Longrightarrow> height c < height n"
  by (rule height_slot) (rule child_at_mem)

text \<open>The descent of \<^verbatim>\<open>btree_search\<close> (\<^verbatim>\<open>while (1)\<close>), from a node.\<close>

function search_node :: "btree_node \<Rightarrow> u64 \<Rightarrow> fault + bool" where
  "search_node node key =
     (case search_scan key node 0 of
        Inl e \<Rightarrow> Inl e
      | Inr (True, i) \<Rightarrow> Inr True
      | Inr (False, i) \<Rightarrow>
          if is_leaf node then Inr False
          else (case child_at node i of
                  Inl e \<Rightarrow> Inl e
                | Inr None \<Rightarrow> Inl NullDeref
                | Inr (Some c) \<Rightarrow> search_node c key))"
  by pat_completeness auto
termination
  by (relation "measure (\<lambda>(node, key). height node)") (auto simp: child_at_height)

declare search_node.simps [simp del]

definition btree_search :: "btree_root option \<Rightarrow> u64 \<Rightarrow> fault + bool" where
  "btree_search tree key =
     (case tree of
        None \<Rightarrow> Inr False
      | Some t \<Rightarrow>
          (case root t of
             None \<Rightarrow> Inr False
           | Some r \<Rightarrow> search_node r key))"

subsection \<open>btree_split_child\<close>

text \<open>The loop that copies the right half of the keys of the full child (line 253).\<close>

function copy_keys :: "btree_node \<Rightarrow> btree_node \<Rightarrow> int \<Rightarrow> int \<Rightarrow> fault + btree_node" where
  "copy_keys new_node full_child mid i =
     (if i < num_keys new_node then
        (case key_at full_child (i + mid + 1) of
           Inl e \<Rightarrow> Inl e
         | Inr k \<Rightarrow>
             (case set_key new_node i k of
                Inl e \<Rightarrow> Inl e
              | Inr new_node' \<Rightarrow> copy_keys new_node' full_child mid (i + 1)))
      else Inr new_node)"
  by pat_completeness auto
termination
  by (relation "measure (\<lambda>(new_node, full_child, mid, i). nat (num_keys new_node - i))")
    (auto simp: set_key_def split: if_splits)

declare copy_keys.simps [simp del]

text \<open>The loop that copies the right half of the child pointers (line 260).\<close>

function copy_children :: "btree_node \<Rightarrow> btree_node \<Rightarrow> int \<Rightarrow> int \<Rightarrow> fault + btree_node" where
  "copy_children new_node full_child mid i =
     (if i \<le> num_keys new_node then
        (case child_at full_child (i + mid + 1) of
           Inl e \<Rightarrow> Inl e
         | Inr c \<Rightarrow>
             (case set_child new_node i c of
                Inl e \<Rightarrow> Inl e
              | Inr new_node' \<Rightarrow> copy_children new_node' full_child mid (i + 1)))
      else Inr new_node)"
  by pat_completeness auto
termination
  by (relation "measure (\<lambda>(new_node, full_child, mid, i). nat (num_keys new_node + 1 - i))")
    (auto simp: set_child_def split: if_splits)

declare copy_children.simps [simp del]

text \<open>The loop that shifts the child pointers of the parent to the right (line 270).\<close>

function shift_children :: "btree_node \<Rightarrow> int \<Rightarrow> int \<Rightarrow> fault + btree_node" where
  "shift_children parent index i =
     (if i \<ge> index + 1 then
        (case child_at parent i of
           Inl e \<Rightarrow> Inl e
         | Inr c \<Rightarrow>
             (case set_child parent (i + 1) c of
                Inl e \<Rightarrow> Inl e
              | Inr parent' \<Rightarrow> shift_children parent' index (i - 1)))
      else Inr parent)"
  by pat_completeness auto
termination
  by (relation "measure (\<lambda>(parent, index, i). nat (i - index))") auto

declare shift_children.simps [simp del]

text \<open>The loop that shifts the keys of the parent to the right (line 280).\<close>

function shift_keys :: "btree_node \<Rightarrow> int \<Rightarrow> int \<Rightarrow> fault + btree_node" where
  "shift_keys parent index i =
     (if i \<ge> index then
        (case key_at parent i of
           Inl e \<Rightarrow> Inl e
         | Inr k \<Rightarrow>
             (case set_key parent (i + 1) k of
                Inl e \<Rightarrow> Inl e
              | Inr parent' \<Rightarrow> shift_keys parent' index (i - 1)))
      else Inr parent)"
  by pat_completeness auto
termination
  by (relation "measure (\<lambda>(parent, index, i). nat (i + 1 - index))") auto

declare shift_keys.simps [simp del]

text \<open>
  The full child is mutated through the pointer \<^verbatim>\<open>full_child\<close>, which stays in slot
  \<open>index\<close> of the parent: \<open>put_child\<close> writes the mutated child back into the slot it
  was read from.
\<close>

definition put_child :: "btree_node \<Rightarrow> int \<Rightarrow> btree_node \<Rightarrow> btree_node" where
  "put_child n i c = Node (is_leaf n) (num_keys n) (keys n) ((children n)[nat i := Some c])"

definition btree_split_child ::
  "(nat \<Rightarrow> bool) \<Rightarrow> btree_node \<Rightarrow> int \<Rightarrow> kmem \<Rightarrow> fault + (btree_node \<times> kmem)" where
  "btree_split_child ok parent index m =
     (case child_at parent index of
        Inl e \<Rightarrow> Inl e
      | Inr full_ptr \<Rightarrow>
          let mid = BTREE_MAX_KEYS div 2 in
          (case kzalloc ok m of
             (False, m1) \<Rightarrow> Inr (parent, m1)
           | (True, m1) \<Rightarrow>
               (case full_ptr of
                  None \<Rightarrow> Inl NullDeref
                | Some full_child \<Rightarrow>
                    let new0 = set_num_keys (set_is_leaf zero_node (is_leaf full_child))
                                 (BTREE_MAX_KEYS - mid - 1) in
                    (case copy_keys new0 full_child mid 0 of
                       Inl e \<Rightarrow> Inl e
                     | Inr new1 \<Rightarrow>
                    (case (if \<not> is_leaf full_child then copy_children new1 full_child mid 0
                           else Inr new1) of
                       Inl e \<Rightarrow> Inl e
                     | Inr new_node \<Rightarrow>
                    let full1 = set_num_keys full_child mid;
                        parent1 = put_child parent index full1 in
                    (case shift_children parent1 index (num_keys parent1) of
                       Inl e \<Rightarrow> Inl e
                     | Inr parent2 \<Rightarrow>
                    (case set_child parent2 (index + 1) (Some new_node) of
                       Inl e \<Rightarrow> Inl e
                     | Inr parent3 \<Rightarrow>
                    (case shift_keys parent3 index (num_keys parent3 - 1) of
                       Inl e \<Rightarrow> Inl e
                     | Inr parent4 \<Rightarrow>
                    (case key_at full1 mid of
                       Inl e \<Rightarrow> Inl e
                     | Inr median \<Rightarrow>
                    (case set_key parent4 index median of
                       Inl e \<Rightarrow> Inl e
                     | Inr parent5 \<Rightarrow>
                         Inr (set_num_keys parent5 (num_keys parent5 + 1), m1)))))))))))"

subsection \<open>btree_insert_nonfull\<close>

text \<open>The loop that shifts the larger keys of a leaf to the right (line 205).\<close>

function leaf_shift :: "u64 \<Rightarrow> btree_node \<Rightarrow> int \<Rightarrow> fault + (btree_node \<times> int)" where
  "leaf_shift key node i =
     (if i \<ge> 1 then
        (case key_at node (i - 1) of
           Inl e \<Rightarrow> Inl e
         | Inr k \<Rightarrow>
             if key < k then
               (case set_key node i k of
                  Inl e \<Rightarrow> Inl e
                | Inr node' \<Rightarrow> leaf_shift key node' (i - 1))
             else Inr (node, i))
      else Inr (node, i))"
  by pat_completeness auto
termination
  by (relation "measure (\<lambda>(key, node, i). nat i)") auto

declare leaf_shift.simps [simp del]

text \<open>The loop that finds the child that should receive the key (line 215).\<close>

function find_child :: "u64 \<Rightarrow> btree_node \<Rightarrow> int \<Rightarrow> fault + int" where
  "find_child key node i =
     (if i \<ge> 1 then
        (case key_at node (i - 1) of
           Inl e \<Rightarrow> Inl e
         | Inr k \<Rightarrow> if key < k then find_child key node (i - 1) else Inr i)
      else Inr i)"
  by pat_completeness auto
termination
  by (relation "measure (\<lambda>(key, node, i). nat i)") auto

declare find_child.simps [simp del]

text \<open>
  Lines 221 to 225: the split of a full child and the choice of the slot to descend
  into. The result is the node after the split, the allocator state and the slot.
\<close>

definition split_if_full ::
  "(nat \<Rightarrow> bool) \<Rightarrow> btree_node \<Rightarrow> u64 \<Rightarrow> int \<Rightarrow> kmem \<Rightarrow> fault + (btree_node \<times> kmem \<times> int)" where
  "split_if_full ok node key i m =
     (case child_at node i of
        Inl e \<Rightarrow> Inl e
      | Inr None \<Rightarrow> Inl NullDeref
      | Inr (Some c) \<Rightarrow>
          if num_keys c = BTREE_MAX_KEYS then
            (case btree_split_child ok node i m of
               Inl e \<Rightarrow> Inl e
             | Inr (node1, m1) \<Rightarrow>
                 (case key_at node1 i of
                    Inl e \<Rightarrow> Inl e
                  | Inr k \<Rightarrow> Inr (node1, m1, if key > k then i + 1 else i)))
          else Inr (node, m, i))"

text \<open>Every slot of the node after a split holds a subtree lower than the node before.\<close>

lemma children_set_key: "set_key n i k = Inr n' \<Longrightarrow> children n' = children n"
  by (auto simp: set_key_def split: if_splits)

lemma below_set_child:
  "set_child n i c = Inr n' \<Longrightarrow> below h n \<Longrightarrow> (\<And>x. c = Some x \<Longrightarrow> height x < h) \<Longrightarrow> below h n'"
  by (auto simp: set_child_def below_def split: if_splits dest!: set_update_subset_insert[THEN subsetD])

lemma below_cong: "children n' = children n \<Longrightarrow> below h n' = below h n"
  by (simp add: below_def)

lemma children_set_num_keys [simp]: "children (set_num_keys n k) = children n"
  by (simp add: set_num_keys_def)

lemma children_set_is_leaf [simp]: "children (set_is_leaf n k) = children n"
  by (simp add: set_is_leaf_def)

lemma height_set_num_keys [simp]: "height (set_num_keys n k) = height n"
  by (cases n) (simp add: set_num_keys_def)

lemma below_put_child: "below h n \<Longrightarrow> height c < h \<Longrightarrow> below h (put_child n i c)"
  by (auto simp: put_child_def below_def dest!: set_update_subset_insert[THEN subsetD])

lemma below_zero_node: "below h zero_node"
  by (simp add: below_def zero_node_def)

lemma children_copy_keys: "copy_keys new full mid i = Inr new' \<Longrightarrow> children new' = children new"
proof (induction new full mid i rule: copy_keys.induct)
  case (1 new_node full_child mid i)
  then show ?case
    by (subst (asm) (2) copy_keys.simps) (auto split: if_splits sum.splits dest: children_set_key)
qed

lemma children_shift_keys: "shift_keys p index i = Inr p' \<Longrightarrow> children p' = children p"
proof (induction p index i rule: shift_keys.induct)
  case (1 parent index i)
  then show ?case
    by (subst (asm) (2) shift_keys.simps) (auto split: if_splits sum.splits dest: children_set_key)
qed

lemma below_copy_children:
  "copy_children new full mid i = Inr new' \<Longrightarrow> below h full \<Longrightarrow> below h new \<Longrightarrow> below h new'"
proof (induction new full mid i rule: copy_children.induct)
  case (1 new_node full_child mid i)
  show ?case
  proof (cases "i \<le> num_keys new_node")
    case True
    with "1.prems"(1) obtain c n1 where c: "child_at full_child (i + mid + 1) = Inr c"
      and n1: "set_child new_node i c = Inr n1"
      and r: "copy_children n1 full_child mid (i + 1) = Inr new'"
      by (subst (asm) copy_children.simps) (auto split: sum.splits)
    have "\<And>x. c = Some x \<Longrightarrow> height x < h"
      using c "1.prems"(2) by (auto simp: below_def dest: child_at_mem)
    from below_set_child [OF n1 "1.prems"(3) this] have "below h n1" .
    from "1.IH" [OF True c n1 r "1.prems"(2) this] show ?thesis .
  next
    case False
    with "1.prems" show ?thesis by (subst (asm) copy_children.simps) simp
  qed
qed

lemma below_shift_children:
  "shift_children p index i = Inr p' \<Longrightarrow> below h p \<Longrightarrow> below h p'"
proof (induction p index i rule: shift_children.induct)
  case (1 parent index i)
  show ?case
  proof (cases "i \<ge> index + 1")
    case True
    with "1.prems"(1) obtain c n1 where c: "child_at parent i = Inr c"
      and n1: "set_child parent (i + 1) c = Inr n1"
      and r: "shift_children n1 index (i - 1) = Inr p'"
      by (subst (asm) shift_children.simps) (auto split: sum.splits)
    have "\<And>x. c = Some x \<Longrightarrow> height x < h"
      using c "1.prems"(2) by (auto simp: below_def dest: child_at_mem)
    from below_set_child [OF n1 "1.prems"(2) this] have "below h n1" .
    from "1.IH" [OF True c n1 r this] show ?thesis .
  next
    case False
    with "1.prems" show ?thesis by (subst (asm) shift_children.simps) simp
  qed
qed

lemma below_split_child:
  assumes "btree_split_child ok parent index m = Inr (p', m')"
  shows "below (height parent) p'"
proof -
  let ?h = "height parent"
  have bp: "below ?h parent" by (rule below_height)
  show ?thesis
  proof (cases "fst (kzalloc ok m)")
    case False
    with assms have "p' = parent"
      by (auto simp: btree_split_child_def Let_def split: sum.splits prod.splits bool.splits)
    with bp show ?thesis by simp
  next
    case True
    with assms obtain full new1 new2 p2 p3 p4 md p5 where
      f: "child_at parent index = Inr (Some full)"
      and n1: "copy_keys (set_num_keys (set_is_leaf zero_node (is_leaf full)) (BTREE_MAX_KEYS - BTREE_MAX_KEYS div 2 - 1)) full (BTREE_MAX_KEYS div 2) 0 = Inr new1"
      and n2: "(if \<not> is_leaf full then copy_children new1 full (BTREE_MAX_KEYS div 2) 0 else Inr new1) = Inr new2"
      and p2: "shift_children (put_child parent index (set_num_keys full (BTREE_MAX_KEYS div 2))) index (num_keys (put_child parent index (set_num_keys full (BTREE_MAX_KEYS div 2)))) = Inr p2"
      and p3: "set_child p2 (index + 1) (Some new2) = Inr p3"
      and p4: "shift_keys p3 index (num_keys p3 - 1) = Inr p4"
      and p5: "set_key p4 index md = Inr p5"
      and p': "p' = set_num_keys p5 (num_keys p5 + 1)"
      by (auto simp: btree_split_child_def Let_def split: sum.splits prod.splits bool.splits option.splits)
    have hf: "height full < ?h" using f by (rule child_at_height)
    have bf: "below (height full) full" by (rule below_height)
    have "below (height full) new1"
      using children_copy_keys [OF n1] by (simp add: below_def zero_node_def)
    then have "below (height full) new2"
      using n2 bf by (auto split: if_splits dest: below_copy_children)
    then have "height new2 \<le> height full"
      by (rule height_below) (cases full, simp)
    with hf have hn: "height new2 < ?h" by simp
    have "below ?h (put_child parent index (set_num_keys full (BTREE_MAX_KEYS div 2)))"
      using bp hf by (simp add: below_put_child)
    from below_shift_children [OF p2 this] have "below ?h p2" .
    from below_set_child [OF p3 this] hn have "below ?h p3" by simp
    then show ?thesis
      using children_shift_keys [OF p4] children_set_key [OF p5] p' by (simp add: below_def)
  qed
qed

lemma split_if_full_height:
  "split_if_full ok node key i m = Inr (node1, m1, j) \<Longrightarrow> child_at node1 j = Inr (Some c)
   \<Longrightarrow> height c < height node"
proof -
  assume a: "split_if_full ok node key i m = Inr (node1, m1, j)" and c: "child_at node1 j = Inr (Some c)"
  from a have "below (height node) node1"
    by (auto simp: split_if_full_def below_height split: sum.splits option.splits if_splits
        dest: below_split_child)
  with c show ?thesis by (auto simp: below_def dest: child_at_mem)
qed

function btree_insert_nonfull ::
  "(nat \<Rightarrow> bool) \<Rightarrow> btree_node \<Rightarrow> u64 \<Rightarrow> kmem \<Rightarrow> fault + (btree_node \<times> kmem)" where
  "btree_insert_nonfull ok node key m =
     (if is_leaf node then
        (case leaf_shift key node (num_keys node) of
           Inl e \<Rightarrow> Inl e
         | Inr (node1, i) \<Rightarrow>
             (case set_key node1 i key of
                Inl e \<Rightarrow> Inl e
              | Inr node2 \<Rightarrow> Inr (set_num_keys node2 (num_keys node2 + 1), m)))
      else
        (case find_child key node (num_keys node) of
           Inl e \<Rightarrow> Inl e
         | Inr i \<Rightarrow>
             (case split_if_full ok node key i m of
                Inl e \<Rightarrow> Inl e
              | Inr (node1, m1, j) \<Rightarrow>
                  (case child_at node1 j of
                     Inl e \<Rightarrow> Inl e
                   | Inr None \<Rightarrow> Inl NullDeref
                   | Inr (Some c) \<Rightarrow>
                       (case btree_insert_nonfull ok c key m1 of
                          Inl e \<Rightarrow> Inl e
                        | Inr (c', m2) \<Rightarrow> Inr (put_child node1 j c', m2))))))"
  by pat_completeness auto
termination
  by (relation "measure (\<lambda>(ok, node, key, m). height node)")
    (auto simp: split_if_full_height)

declare btree_insert_nonfull.simps [simp del]

subsection \<open>btree_insert\<close>

definition btree_insert ::
  "(nat \<Rightarrow> bool) \<Rightarrow> btree_root option \<Rightarrow> u64 \<Rightarrow> kmem \<Rightarrow> fault + (btree_root option \<times> kmem)" where
  "btree_insert ok tree key m =
     (case tree of
        None \<Rightarrow> Inr (None, m)
      | Some t \<Rightarrow>
          (case root t of
             None \<Rightarrow> Inr (tree, m)
           | Some r \<Rightarrow>
               if num_keys r = BTREE_MAX_KEYS then
                 (case kzalloc ok m of
                    (False, m1) \<Rightarrow> Inr (tree, m1)
                  | (True, m1) \<Rightarrow>
                      (case set_child (set_num_keys (set_is_leaf zero_node False) 0) 0 (Some r) of
                         Inl e \<Rightarrow> Inl e
                       | Inr new_root \<Rightarrow>
                      (case btree_split_child ok new_root 0 m1 of
                         Inl e \<Rightarrow> Inl e
                       | Inr (new_root1, m2) \<Rightarrow>
                      (case btree_insert_nonfull ok new_root1 key m2 of
                         Inl e \<Rightarrow> Inl e
                       | Inr (new_root2, m3) \<Rightarrow> Inr (Some (t\<lparr>root := Some new_root2\<rparr>), m3)))))
               else
                 (case btree_insert_nonfull ok r key m of
                    Inl e \<Rightarrow> Inl e
                  | Inr (r', m1) \<Rightarrow> Inr (Some (t\<lparr>root := Some r'\<rparr>), m1))))"

subsection \<open>btree_destroy\<close>

text \<open>
  \<^verbatim>\<open>btree_free_node\<close> and its loop over the children (line 94). Freeing is counted in
  the allocator state.
\<close>

function btree_free_node :: "btree_node \<Rightarrow> kmem \<Rightarrow> fault + kmem"
  and free_children :: "btree_node \<Rightarrow> int \<Rightarrow> kmem \<Rightarrow> fault + kmem" where
  "btree_free_node node m =
     (if \<not> is_leaf node then
        (case free_children node 0 m of
           Inl e \<Rightarrow> Inl e
         | Inr m1 \<Rightarrow> Inr (kfree m1))
      else Inr (kfree m))"
| "free_children node i m =
     (if i \<le> num_keys node then
        (case child_at node i of
           Inl e \<Rightarrow> Inl e
         | Inr None \<Rightarrow> free_children node (i + 1) m
         | Inr (Some c) \<Rightarrow>
             (case btree_free_node c m of
                Inl e \<Rightarrow> Inl e
              | Inr m1 \<Rightarrow> free_children node (i + 1) m1))
      else Inr m)"
  by pat_completeness auto
termination
  by (relation "inv_image (less_than <*lex*> less_than) (\<lambda>x. case x of
        Inl (node, m) \<Rightarrow> (height node, nat (num_keys node + 1) + 1)
      | Inr (node, i, m) \<Rightarrow> (height node, nat (num_keys node + 1 - i)))")
    (auto dest: child_at_height)

declare btree_free_node.simps [simp del] free_children.simps [simp del]

definition btree_destroy :: "btree_root option \<Rightarrow> kmem \<Rightarrow> fault + kmem" where
  "btree_destroy tree m =
     (case tree of
        None \<Rightarrow> Inr m
      | Some t \<Rightarrow>
          (case root t of
             None \<Rightarrow> Inr (kfree m)
           | Some r \<Rightarrow>
               (case btree_free_node r m of
                  Inl e \<Rightarrow> Inl e
                | Inr m1 \<Rightarrow> Inr (kfree m1))))"

subsection \<open>btree_print\<close>

text \<open>
  The kernel log is the list of the \<^verbatim>\<open>printk\<close> calls made, each with its level and
  its formatted text. \<^verbatim>\<open>%llu\<close> prints a key in decimal, \<^verbatim>\<open>%*s\<close> with the empty string
  prints as many spaces as the width.
\<close>

datatype loglevel = KERN_INFO | KERN_CONT

type_synonym klog = "(loglevel \<times> string) list"

definition printk :: "loglevel \<Rightarrow> string \<Rightarrow> klog \<Rightarrow> klog" where
  "printk lvl s log = log @ [(lvl, s)]"

function fmt_llu :: "nat \<Rightarrow> string" where
  "fmt_llu n = (if n < 10 then [char_of (48 + n)] else fmt_llu (n div 10) @ [char_of (48 + n mod 10)])"
  by pat_completeness auto
termination
  by (relation "measure id") auto

declare fmt_llu.simps [simp del]

definition fmt_pad :: "int \<Rightarrow> string" where
  "fmt_pad w = replicate (nat w) CHR '' ''"

text \<open>
  The loop over the keys of a node (lines 318 and 325): each key is printed between
  \<open>pre\<close> and \<open>post\<close>.
\<close>

function print_keys :: "btree_node \<Rightarrow> string \<Rightarrow> string \<Rightarrow> int \<Rightarrow> klog \<Rightarrow> fault + klog" where
  "print_keys node pre post i log =
     (if i < num_keys node then
        (case key_at node i of
           Inl e \<Rightarrow> Inl e
         | Inr k \<Rightarrow> print_keys node pre post (i + 1) (printk KERN_CONT (pre @ fmt_llu (unat k) @ post) log))
      else Inr log)"
  by pat_completeness auto
termination
  by (relation "measure (\<lambda>(node, pre, post, i, log). nat (num_keys node - i))") auto

declare print_keys.simps [simp del]

function btree_print_recursive :: "btree_node option \<Rightarrow> int \<Rightarrow> klog \<Rightarrow> fault + klog"
  and print_children :: "btree_node \<Rightarrow> int \<Rightarrow> int \<Rightarrow> klog \<Rightarrow> fault + klog" where
  "btree_print_recursive node level log =
     (case node of
        None \<Rightarrow> Inr log
      | Some n \<Rightarrow>
          if is_leaf n then
            (case print_keys n [] '' '' 0
                    (printk KERN_INFO (fmt_pad (level * 4) @ ''Leaf Node: '') log) of
               Inl e \<Rightarrow> Inl e
             | Inr log1 \<Rightarrow> Inr (printk KERN_CONT [CHR 0x0A] log1))
          else
            (case print_keys n ''['' ''] '' 0
                    (printk KERN_INFO (fmt_pad (level * 4) @ ''Internal Node: '') log) of
               Inl e \<Rightarrow> Inl e
             | Inr log1 \<Rightarrow> print_children n level 0 (printk KERN_CONT [CHR 0x0A] log1)))"
| "print_children n level i log =
     (if i \<le> num_keys n then
        (case child_at n i of
           Inl e \<Rightarrow> Inl e
         | Inr c \<Rightarrow>
             (case btree_print_recursive c (level + 1) log of
                Inl e \<Rightarrow> Inl e
              | Inr log1 \<Rightarrow> print_children n level (i + 1) log1))
      else Inr log)"
  by pat_completeness auto
termination
  by (relation "inv_image (less_than <*lex*> less_than) (\<lambda>x. case x of
        Inl (node, level, log) \<Rightarrow>
          (case node of None \<Rightarrow> (0, 0) | Some n \<Rightarrow> (height n, nat (num_keys n + 1) + 1))
      | Inr (n, level, i, log) \<Rightarrow> (height n, nat (num_keys n + 1 - i)))")
    (auto dest: child_at_height split: option.splits)

declare btree_print_recursive.simps [simp del] print_children.simps [simp del]

definition btree_print :: "btree_root option \<Rightarrow> klog \<Rightarrow> fault + klog" where
  "btree_print tree log =
     (case tree of
        None \<Rightarrow> Inr (printk KERN_INFO (''B+ Tree is empty.'' @ [CHR 0x0A]) log)
      | Some t \<Rightarrow>
          (case root t of
             None \<Rightarrow> Inr (printk KERN_INFO (''B+ Tree is empty.'' @ [CHR 0x0A]) log)
           | Some r \<Rightarrow>
               (case btree_print_recursive (Some r) 0
                       (printk KERN_INFO (''---- B+ Tree Print (in-order) ----'' @ [CHR 0x0A]) log) of
                  Inl e \<Rightarrow> Inl e
                | Inr log1 \<Rightarrow>
                    Inr (printk KERN_INFO (''-----------------------------------'' @ [CHR 0x0A]) log1))))"

section \<open>Keys of a subtree and well-formed nodes\<close>

text \<open>
  The keys in use in a node are the first \<open>num_keys\<close> of its key array; the keys of a
  subtree are those of the node and, for an internal node, of the subtrees in its slots
  \<open>0 .. num_keys\<close>.
\<close>

definition live_keys :: "btree_node \<Rightarrow> u64 list" where
  "live_keys n = take (nat (num_keys n)) (keys n)"

function tree_keys :: "btree_node \<Rightarrow> u64 set" where
  "tree_keys n =
     set (live_keys n) \<union>
     (if is_leaf n then {}
      else (\<Union>i \<in> {0..num_keys n}. case child_at n i of Inr (Some c) \<Rightarrow> tree_keys c | _ \<Rightarrow> {}))"
  by pat_completeness auto
termination
  by (relation "measure height") (auto dest: child_at_height)

declare tree_keys.simps [simp del]

text \<open>The number of keys stored in a subtree, each occurrence counted.\<close>

function tree_size :: "btree_node \<Rightarrow> nat" where
  "tree_size n =
     length (live_keys n) +
     (if is_leaf n then 0
      else (\<Sum>i \<in> {0..num_keys n}. case child_at n i of Inr (Some c) \<Rightarrow> tree_size c | _ \<Rightarrow> 0))"
  by pat_completeness auto
termination
  by (relation "measure height") (auto dest: child_at_height)

declare tree_size.simps [simp del]

text \<open>
  A well-formed node: its arrays have the lengths of the C arrays, its key count is
  between \<open>lo\<close> and \<open>BTREE_MAX_KEYS\<close>, its keys in use are sorted, and, when it is
  internal, each of its slots \<open>0 .. num_keys\<close> holds a well-formed node with at least one
  key, whose keys lie between the two keys of the parent next to the slot. With
  \<open>s\<close> set every comparison is strict (the keys of the tree are pairwise distinct),
  otherwise equal keys are allowed on both sides.
\<close>

definition lt :: "bool \<Rightarrow> u64 \<Rightarrow> u64 \<Rightarrow> bool" where
  "lt strict a b = (if strict then a < b else a \<le> b)"

function wf :: "bool \<Rightarrow> int \<Rightarrow> btree_node \<Rightarrow> bool" where
  "wf s lo n =
     (int (length (keys n)) = BTREE_MAX_KEYS \<and> int (length (children n)) = BTREE_ORDER
      \<and> lo \<le> num_keys n \<and> num_keys n \<le> BTREE_MAX_KEYS
      \<and> sorted_wrt (lt s) (live_keys n)
      \<and> (\<not> is_leaf n \<longrightarrow>
           (\<forall>i \<in> {0..num_keys n}.
              case child_at n i of
                Inr (Some c) \<Rightarrow>
                  wf s 1 c
                  \<and> (\<forall>k \<in> tree_keys c.
                        (i < num_keys n \<longrightarrow> lt s k (keys n ! nat i))
                        \<and> (0 < i \<longrightarrow> lt s (keys n ! nat (i - 1)) k))
              | _ \<Rightarrow> False)))"
  by pat_completeness auto
termination
  by (relation "measure (\<lambda>(s, lo, n). height n)") (auto dest: child_at_height)

declare wf.simps [simp del]

subsection \<open>The invariants as the specification states them\<close>

text \<open>
  Occupancy: the key count of the node is between \<open>lo\<close> and \<open>BTREE_MAX_KEYS\<close>, and that
  of every node below it between \<open>BTREE_MIN_KEYS\<close> and \<open>BTREE_MAX_KEYS\<close>. For the root
  \<open>lo\<close> is 0.
\<close>

function occupancy :: "int \<Rightarrow> btree_node \<Rightarrow> bool" where
  "occupancy lo n =
     (lo \<le> num_keys n \<and> num_keys n \<le> BTREE_MAX_KEYS
      \<and> (\<not> is_leaf n \<longrightarrow>
           (\<forall>i \<in> {0..num_keys n}.
              case child_at n i of
                Inr (Some c) \<Rightarrow> occupancy BTREE_MIN_KEYS c
              | _ \<Rightarrow> True)))"
  by pat_completeness auto
termination
  by (relation "measure (\<lambda>(lo, n). height n)") (auto dest: child_at_height)

declare occupancy.simps [simp del]

text \<open>
  Search order: in every internal node, the keys of the subtree in slot \<open>i\<close> are below
  key \<open>i\<close> (strictly when \<open>strict\<close> is set, else at most equal) and at least key
  \<open>i - 1\<close>.
\<close>

function order_inv :: "bool \<Rightarrow> btree_node \<Rightarrow> bool" where
  "order_inv strict n =
     (is_leaf n \<or>
      (\<forall>i \<in> {0..num_keys n}.
         case child_at n i of
           Inr (Some c) \<Rightarrow>
             order_inv strict c
             \<and> (i < num_keys n \<longrightarrow>
                  (\<forall>k \<in> tree_keys c. if strict then k < keys n ! nat i else k \<le> keys n ! nat i))
             \<and> (0 < i \<longrightarrow> (\<forall>k \<in> tree_keys c. keys n ! nat (i - 1) \<le> k))
         | _ \<Rightarrow> True))"
  by pat_completeness auto
termination
  by (relation "measure (\<lambda>(strict, n). height n)") (auto dest: child_at_height)

declare order_inv.simps [simp del]

section \<open>Runs of the interface\<close>

text \<open>
  A run inserts a list of keys, one call of \<^verbatim>\<open>btree_insert\<close> after the other, and stops
  at the first fault.
\<close>

fun insert_all ::
  "(nat \<Rightarrow> bool) \<Rightarrow> u64 list \<Rightarrow> btree_root option \<times> kmem \<Rightarrow> fault + (btree_root option \<times> kmem)" where
  "insert_all ok [] s = Inr s"
| "insert_all ok (k # ks) (t, m) =
     (case btree_insert ok t k m of
        Inl e \<Rightarrow> Inl e
      | Inr s' \<Rightarrow> insert_all ok ks s')"

section \<open>Auxiliary lemmas\<close>

lemma length3: "length xs = 3 \<Longrightarrow> \<exists>a b c. xs = [a, b, c]"
  by (auto simp: eval_nat_numeral length_Suc_conv)

lemma length4: "length xs = 4 \<Longrightarrow> \<exists>a b c d. xs = [a, b, c, d]"
  by (auto simp: eval_nat_numeral length_Suc_conv)

lemma wf_shape:
  assumes "wf s lo n"
  obtains l nk a b c c0 c1 c2 c3 where "n = Node l nk [a, b, c] [c0, c1, c2, c3]" "lo \<le> nk" "nk \<le> 3"
proof -
  from assms have "length (keys n) = 3" "length (children n) = 4" "lo \<le> num_keys n" "num_keys n \<le> 3"
    by (subst (asm) wf.simps, simp add: BTREE_MAX_KEYS_def BTREE_ORDER_def)+
  then show ?thesis using that
    by (cases n) (auto dest!: length3 length4)
qed

lemmas wf_Node = wf.simps [of _ _ "Node l nk ks cs"] for l nk ks cs
lemmas tree_keys_Node = tree_keys.simps [of "Node l nk ks cs"] for l nk ks cs
lemmas tree_size_Node = tree_size.simps [of "Node l nk ks cs"] for l nk ks cs

lemma range0: "{0..0::int} = {0}" by auto
lemma range1: "{0..1::int} = {0, 1}" by auto
lemma range2: "{0..2::int} = {0, 1, 2}" by auto
lemma range3: "{0..3::int} = {0, 1, 2, 3}" by auto
lemmas ranges = range0 range1 range2 range3

lemma insert_leaf:
  assumes w: "wf s lo n" and l: "is_leaf n" and nf: "num_keys n < 3" and lo: "0 \<le> lo"
    and d: "s \<longrightarrow> key \<notin> tree_keys n"
  shows "\<exists>n'. btree_insert_nonfull ok n key m = Inr (n', m) \<and> wf s (lo + 1) n'
           \<and> tree_keys n' = insert key (tree_keys n) \<and> num_keys n' = num_keys n + 1 \<and> is_leaf n'
           \<and> tree_size n' = tree_size n + 1"
proof -
  from w obtain l' nk a b c c0 c1 c2 c3 where n: "n = Node l' nk [a, b, c] [c0, c1, c2, c3]" "lo \<le> nk"
    by (rule wf_shape)
  with l nf lo have "nk = 0 \<or> nk = 1 \<or> nk = 2" "l'" by auto
  then show ?thesis
    using w d n lo
    apply (elim disjE)
      apply (simp_all add: btree_insert_nonfull.simps leaf_shift.simps key_at_def set_key_def
        set_num_keys_def wf_Node tree_keys_Node tree_size_Node live_keys_def lt_def
        BTREE_MAX_KEYS_def BTREE_ORDER_def)
    apply (auto simp: eval_nat_numeral)
    done
qed

lemma wf_child:
  assumes "wf s lo p" "\<not> is_leaf p" "0 \<le> j" "j \<le> num_keys p"
  shows "\<exists>c. child_at p j = Inr (Some c) \<and> wf s 1 c
     \<and> (\<forall>k \<in> tree_keys c. (j < num_keys p \<longrightarrow> lt s k (keys p ! nat j))
                          \<and> (0 < j \<longrightarrow> lt s (keys p ! nat (j - 1)) k))"
proof -
  from assms(1,2) have "\<forall>i \<in> {0..num_keys p}.
              case child_at p i of
                Inr (Some c) \<Rightarrow>
                  wf s 1 c
                  \<and> (\<forall>k \<in> tree_keys c.
                        (i < num_keys p \<longrightarrow> lt s k (keys p ! nat i))
                        \<and> (0 < i \<longrightarrow> lt s (keys p ! nat (i - 1)) k))
              | _ \<Rightarrow> False"
    by (subst (asm) wf.simps) simp
  with assms(3,4) have "case child_at p j of
                Inr (Some c) \<Rightarrow>
                  wf s 1 c
                  \<and> (\<forall>k \<in> tree_keys c.
                        (j < num_keys p \<longrightarrow> lt s k (keys p ! nat j))
                        \<and> (0 < j \<longrightarrow> lt s (keys p ! nat (j - 1)) k))
              | _ \<Rightarrow> False" by simp
  then show ?thesis by (auto split: sum.splits option.splits)
qed

lemma tree_keys_child:
  assumes "child_at p j = Inr (Some c)" "\<not> is_leaf p" "0 \<le> j" "j \<le> num_keys p"
  shows "tree_keys c \<subseteq> tree_keys p"
  using assms by (subst (2) tree_keys.simps) force

lemma tree_keys_live:
  "0 \<le> j \<Longrightarrow> j < num_keys p \<Longrightarrow> j < int (length (keys p)) \<Longrightarrow> keys p ! nat j \<in> tree_keys p"
  by (subst tree_keys.simps) (auto simp: live_keys_def in_set_conv_nth intro!: exI[of _ "nat j"])

lemma find_child_spec:
  assumes w: "wf s lo p" and lo: "0 \<le> lo"
  shows "\<exists>i. find_child key p (num_keys p) = Inr i \<and> 0 \<le> i \<and> i \<le> num_keys p
     \<and> (0 < i \<longrightarrow> keys p ! nat (i - 1) \<le> key) \<and> (i < num_keys p \<longrightarrow> key < keys p ! nat i)"
proof -
  from w obtain l' nk a b c c0 c1 c2 c3 where n: "p = Node l' nk [a, b, c] [c0, c1, c2, c3]" "lo \<le> nk" "nk \<le> 3"
    by (rule wf_shape)
  with lo have "nk = 0 \<or> nk = 1 \<or> nk = 2 \<or> nk = 3" by auto
  then show ?thesis
    using n
    apply (elim disjE)
      apply (simp_all add: find_child.simps key_at_def)
    apply (auto simp: eval_nat_numeral)
    done
qed

lemma split_child_spec:
  assumes w: "wf s lo p" and nl: "\<not> is_leaf p" and nf: "num_keys p < 3" and i: "0 \<le> i" "i \<le> num_keys p"
    and lo: "0 \<le> lo" and c: "child_at p i = Inr (Some c)" and full: "num_keys c = 3" and ok: "ok (calls m)"
  shows "\<exists>p' L R. btree_split_child ok p i m = Inr (p', \<lparr>calls = Suc (calls m), live = Suc (live m)\<rparr>)
    \<and> wf s (lo + 1) p' \<and> \<not> is_leaf p' \<and> num_keys p' = num_keys p + 1 \<and> tree_keys p' = tree_keys p
    \<and> tree_size p' = tree_size p
    \<and> key_at p' i = Inr (keys c ! 1) \<and> keys c ! 1 \<in> tree_keys p
    \<and> (0 < i \<longrightarrow> keys p' ! nat (i - 1) = keys p ! nat (i - 1))
    \<and> (i < num_keys p \<longrightarrow> keys p' ! nat (i + 1) = keys p ! nat i)
    \<and> child_at p' i = Inr (Some L) \<and> num_keys L = 1
    \<and> child_at p' (i + 1) = Inr (Some R) \<and> num_keys R = 1"
proof -
  from w obtain l' nk a b c' c0 c1 c2 c3 where p: "p = Node l' nk [a, b, c'] [c0, c1, c2, c3]" "lo \<le> nk"
    by (rule wf_shape)
  from wf_child [OF w nl i] c have wc: "wf s 1 c" by simp
  then obtain lc nc x y z d0 d1 d2 d3 where cc: "c = Node lc nc [x, y, z] [d0, d1, d2, d3]"
    by (rule wf_shape)
  from p nf lo i have cases: "(nk = 0 \<and> i = 0) \<or> (nk = 1 \<and> i = 0) \<or> (nk = 1 \<and> i = 1)
     \<or> (nk = 2 \<and> i = 0) \<or> (nk = 2 \<and> i = 1) \<or> (nk = 2 \<and> i = 2)" by auto
  from cases show ?thesis
    using w nl c full ok p cc lo
    apply (elim disjE conjE)
         apply (simp_all add: btree_split_child_def kzalloc_def Let_def zero_node_def
          copy_keys.simps copy_children.simps shift_children.simps shift_keys.simps
          set_num_keys_def set_is_leaf_def put_child_def
          key_at_def set_key_def child_at_def set_child_def
          BTREE_MAX_KEYS_def BTREE_ORDER_def eval_nat_numeral
          split: option.splits)
         apply (auto simp: wf_Node tree_keys_Node tree_size_Node child_at_def live_keys_def lt_def ranges
          BTREE_MAX_KEYS_def BTREE_ORDER_def eval_nat_numeral split: option.splits if_splits)
    done
qed


lemma wf_mono: "wf s lo n \<Longrightarrow> lo' \<le> lo \<Longrightarrow> wf s lo' n"
  by (subst wf.simps, subst (asm) wf.simps) auto

lemma child_at_put_child:
  "0 \<le> j \<Longrightarrow> j < int (length (children p)) \<Longrightarrow> j \<le> num_keys p \<Longrightarrow> 0 \<le> i \<Longrightarrow> i \<le> num_keys p \<Longrightarrow>
   child_at (put_child p j c') i = (if i = j then Inr (Some c') else child_at p i)"
  by (auto simp: child_at_def put_child_def nth_list_update)

lemma put_child_fields [simp]:
  "keys (put_child p j c') = keys p" "num_keys (put_child p j c') = num_keys p"
  "is_leaf (put_child p j c') = is_leaf p" "length (children (put_child p j c')) = length (children p)"
  "live_keys (put_child p j c') = live_keys p"
  by (simp_all add: put_child_def live_keys_def)

lemma child_at_bound: "child_at p j = Inr c \<Longrightarrow> 0 \<le> j \<and> j < int (length (children p))"
  by (auto simp: child_at_def split: if_splits)

lemma put_child_tree_keys:
  assumes nl: "\<not> is_leaf p" and j: "0 \<le> j" "j \<le> num_keys p"
    and c: "child_at p j = Inr (Some c)"
    and tk: "tree_keys c' = insert key (tree_keys c)"
  shows "tree_keys (put_child p j c') = insert key (tree_keys p)"
proof -
  let ?f = "\<lambda>i. case child_at p i of Inr (Some c) \<Rightarrow> tree_keys c | _ \<Rightarrow> {}"
  let ?g = "\<lambda>i. case child_at (put_child p j c') i of Inr (Some c) \<Rightarrow> tree_keys c | _ \<Rightarrow> {}"
  from c have b: "j < int (length (children p))" by (auto dest: child_at_bound)
  have g: "\<And>i. i \<in> {0..num_keys p} \<Longrightarrow> ?g i = (if i = j then insert key (?f j) else ?f i)"
    using j b c tk by (simp add: child_at_put_child)
  have "(\<Union>i \<in> {0..num_keys p}. ?g i) = (\<Union>i \<in> {0..num_keys p}. if i = j then insert key (?f j) else ?f i)"
    using g by (intro SUP_cong refl) 
  also have "\<dots> = insert key (\<Union>i \<in> {0..num_keys p}. ?f i)"
    using j by (auto split: if_splits)
  finally have u: "(\<Union>i \<in> {0..num_keys p}. ?g i) = insert key (\<Union>i \<in> {0..num_keys p}. ?f i)" .
  have 1: "tree_keys (put_child p j c') = set (live_keys p) \<union> (\<Union>i \<in> {0..num_keys p}. ?g i)"
    using nl by (subst tree_keys.simps) simp
  have 2: "tree_keys p = set (live_keys p) \<union> (\<Union>i \<in> {0..num_keys p}. ?f i)"
    using nl by (subst tree_keys.simps) simp
  show ?thesis unfolding 1 2 u by simp
qed

lemma put_child_tree_size:
  assumes nl: "\<not> is_leaf p" and j: "0 \<le> j" "j \<le> num_keys p"
    and c: "child_at p j = Inr (Some c)"
    and ts: "tree_size c' = tree_size c + 1"
  shows "tree_size (put_child p j c') = tree_size p + 1"
proof -
  let ?f = "\<lambda>i. case child_at p i of Inr (Some c) \<Rightarrow> tree_size c | _ \<Rightarrow> 0"
  let ?g = "\<lambda>i. case child_at (put_child p j c') i of Inr (Some c) \<Rightarrow> tree_size c | _ \<Rightarrow> 0"
  from c have b: "j < int (length (children p))" by (auto dest: child_at_bound)
  have g: "\<And>i. i \<in> {0..num_keys p} \<Longrightarrow> ?g i = (if i = j then ?f j + 1 else ?f i)"
    using j b c ts by (simp add: child_at_put_child)
  have jin: "j \<in> {0..num_keys p}" using j by simp
  have "(\<Sum>i \<in> {0..num_keys p}. ?g i) = (\<Sum>i \<in> {0..num_keys p}. if i = j then ?f j + 1 else ?f i)"
    using g by (intro sum.cong refl)
  also have "\<dots> = (?f j + 1) + (\<Sum>i \<in> {0..num_keys p} - {j}. if i = j then ?f j + 1 else ?f i)"
    using jin by (subst sum.remove [of _ j]) auto
  also have "(\<Sum>i \<in> {0..num_keys p} - {j}. if i = j then ?f j + 1 else ?f i) = (\<Sum>i \<in> {0..num_keys p} - {j}. ?f i)"
    by (intro sum.cong refl) auto
  also have "(?f j + 1) + (\<Sum>i \<in> {0..num_keys p} - {j}. ?f i) = (\<Sum>i \<in> {0..num_keys p}. ?f i) + 1"
    using jin by (subst (2) sum.remove [of _ j]) auto
  finally have u: "(\<Sum>i \<in> {0..num_keys p}. ?g i) = (\<Sum>i \<in> {0..num_keys p}. ?f i) + 1" .
  have 1: "tree_size (put_child p j c') = length (live_keys p) + (\<Sum>i \<in> {0..num_keys p}. ?g i)"
    using nl by (subst tree_size.simps) simp
  have 2: "tree_size p = length (live_keys p) + (\<Sum>i \<in> {0..num_keys p}. ?f i)"
    using nl by (subst tree_size.simps) simp
  show ?thesis unfolding 1 2 u by simp
qed

lemma put_child_wf:
  assumes w: "wf s lo p" and nl: "\<not> is_leaf p" and j: "0 \<le> j" "j \<le> num_keys p"
    and c: "child_at p j = Inr (Some c)" and w': "wf s 1 c'"
    and tk: "tree_keys c' = insert key (tree_keys c)"
    and hi: "j < num_keys p \<longrightarrow> lt s key (keys p ! nat j)"
    and lw: "0 < j \<longrightarrow> lt s (keys p ! nat (j - 1)) key"
  shows "wf s lo (put_child p j c')"
proof -
  from c have b: "j < int (length (children p))" by (auto dest: child_at_bound)
  have ch: "\<And>i. i \<in> {0..num_keys p} \<Longrightarrow>
      child_at (put_child p j c') i = (if i = j then Inr (Some c') else child_at p i)"
    using j b by (simp add: child_at_put_child)
  from wf_child [OF w nl j] c have old: "\<forall>k \<in> tree_keys c. (j < num_keys p \<longrightarrow> lt s k (keys p ! nat j))
                          \<and> (0 < j \<longrightarrow> lt s (keys p ! nat (j - 1)) k)" by simp
  have kids: "\<forall>i \<in> {0..num_keys p}.
              case child_at (put_child p j c') i of
                Inr (Some c) \<Rightarrow>
                  wf s 1 c
                  \<and> (\<forall>k \<in> tree_keys c.
                        (i < num_keys p \<longrightarrow> lt s k (keys p ! nat i))
                        \<and> (0 < i \<longrightarrow> lt s (keys p ! nat (i - 1)) k))
              | _ \<Rightarrow> False"
  proof
    fix i assume i: "i \<in> {0..num_keys p}"
    show "case child_at (put_child p j c') i of
                Inr (Some c) \<Rightarrow>
                  wf s 1 c
                  \<and> (\<forall>k \<in> tree_keys c.
                        (i < num_keys p \<longrightarrow> lt s k (keys p ! nat i))
                        \<and> (0 < i \<longrightarrow> lt s (keys p ! nat (i - 1)) k))
              | _ \<Rightarrow> False"
    proof (cases "i = j")
      case True
      then show ?thesis using ch [OF i] w' tk hi lw old by simp
    next
      case False
      from i have "0 \<le> i" "i \<le> num_keys p" by auto
      from wf_child [OF w nl this] False ch [OF i] show ?thesis by auto
    qed
  qed
  from w have "int (length (keys p)) = BTREE_MAX_KEYS \<and> int (length (children p)) = BTREE_ORDER
      \<and> lo \<le> num_keys p \<and> num_keys p \<le> BTREE_MAX_KEYS
      \<and> sorted_wrt (lt s) (live_keys p)" by (subst (asm) wf.simps) simp
  with kids show ?thesis by (subst wf.simps) (unfold put_child_fields, simp)
qed

lemma split_if_full_spec:
  assumes w: "wf s lo p" and nl: "\<not> is_leaf p" and nf: "num_keys p < 3" and lo: "0 \<le> lo"
    and ok: "\<forall>n. ok n" and d: "s \<longrightarrow> key \<notin> tree_keys p"
    and i: "0 \<le> i" "i \<le> num_keys p"
    and lw: "0 < i \<longrightarrow> keys p ! nat (i - 1) \<le> key"
    and hi: "i < num_keys p \<longrightarrow> key < keys p ! nat i"
  shows "\<exists>p' m' j c. split_if_full ok p key i m = Inr (p', m', j)
     \<and> calls m \<le> calls m' \<and> live m \<le> live m'
     \<and> wf s lo p' \<and> \<not> is_leaf p' \<and> tree_keys p' = tree_keys p \<and> tree_size p' = tree_size p
     \<and> num_keys p \<le> num_keys p'
     \<and> 0 \<le> j \<and> j \<le> num_keys p' \<and> child_at p' j = Inr (Some c) \<and> wf s 1 c \<and> num_keys c < 3
     \<and> (j < num_keys p' \<longrightarrow> lt s key (keys p' ! nat j))
     \<and> (0 < j \<longrightarrow> lt s (keys p' ! nat (j - 1)) key)"
proof -
  from wf_child [OF w nl i] obtain c where c: "child_at p i = Inr (Some c)" and wc: "wf s 1 c" by blast
  from w have len: "int (length (keys p)) = 3" "num_keys p \<le> 3"
    by (subst (asm) wf.simps, simp add: BTREE_MAX_KEYS_def BTREE_ORDER_def)+
  have lw': "0 < i \<longrightarrow> lt s (keys p ! nat (i - 1)) key"
  proof
    assume p: "0 < i"
    with i len have "keys p ! nat (i - 1) \<in> tree_keys p" by (intro tree_keys_live) auto
    with d lw p show "lt s (keys p ! nat (i - 1)) key" by (auto simp: lt_def less_le)
  qed
  have hi': "i < num_keys p \<longrightarrow> lt s key (keys p ! nat i)"
    using hi by (auto simp: lt_def)
  show ?thesis
  proof (cases "num_keys c = 3")
    case False
    from wc have "num_keys c \<le> 3" by (subst (asm) wf.simps) (simp add: BTREE_MAX_KEYS_def BTREE_ORDER_def)
    with False have "num_keys c < 3" by simp
    moreover have "split_if_full ok p key i m = Inr (p, m, i)"
      using c False by (simp add: split_if_full_def BTREE_MAX_KEYS_def BTREE_ORDER_def)
    ultimately show ?thesis using w nl i c wc lw' hi' by auto
  next
    case True
    from ok have okm: "ok (calls m)" by simp
    from split_child_spec [where ok = ok and m = m, OF w nl nf i lo c True okm] obtain p' L R where
      sp: "btree_split_child ok p i m = Inr (p', \<lparr>calls = Suc (calls m), live = Suc (live m)\<rparr>)"
      and wp: "wf s (lo + 1) p'" and nlp: "\<not> is_leaf p'" and nk: "num_keys p' = num_keys p + 1"
      and tk: "tree_keys p' = tree_keys p" and tsz: "tree_size p' = tree_size p"
      and med: "key_at p' i = Inr (keys c ! 1)" and medin: "keys c ! 1 \<in> tree_keys p"
      and kl: "0 < i \<longrightarrow> keys p' ! nat (i - 1) = keys p ! nat (i - 1)"
      and kr: "i < num_keys p \<longrightarrow> keys p' ! nat (i + 1) = keys p ! nat i"
      and L: "child_at p' i = Inr (Some L)" "num_keys L = 1"
      and R: "child_at p' (i + 1) = Inr (Some R)" "num_keys R = 1" by blast
    from med have medk: "keys p' ! nat i = keys c ! 1"
      by (auto simp: key_at_def split: if_splits)
    from wp have wp0: "wf s lo p'" by (rule wf_mono) simp
    show ?thesis
    proof (cases "key > keys c ! 1")
      case gt: True
      have sif: "split_if_full ok p key i m = Inr (p', \<lparr>calls = Suc (calls m), live = Suc (live m)\<rparr>, i + 1)"
        using c True sp med gt by (simp add: split_if_full_def BTREE_MAX_KEYS_def BTREE_ORDER_def)
      have j: "0 \<le> i + 1" "i + 1 \<le> num_keys p'" using i nk by auto
      from wf_child [OF wp nlp j] R have wR: "wf s 1 R" by simp
      have "lt s (keys p' ! nat (i + 1 - 1)) key" using gt medk by (auto simp: lt_def less_le)
      moreover have "i + 1 < num_keys p' \<longrightarrow> lt s key (keys p' ! nat (i + 1))"
        using kr hi' nk by auto
      ultimately show ?thesis using sif wp0 nlp tk tsz nk j R wR by auto
    next
      case le: False
      have sif: "split_if_full ok p key i m = Inr (p', \<lparr>calls = Suc (calls m), live = Suc (live m)\<rparr>, i)"
        using c True sp med le by (simp add: split_if_full_def BTREE_MAX_KEYS_def BTREE_ORDER_def)
      have j: "0 \<le> i" "i \<le> num_keys p'" using i nk by auto
      from wf_child [OF wp nlp j] L have wL: "wf s 1 L" by simp
      have "lt s key (keys p' ! nat i)" using le medk medin d by (auto simp: lt_def less_le not_less)
      moreover have "0 < i \<longrightarrow> lt s (keys p' ! nat (i - 1)) key"
        using kl lw' by auto
      ultimately show ?thesis using sif wp0 nlp tk tsz nk j L wL by auto
    qed
  qed
qed

lemma insert_nonfull_spec:
  "\<forall>n. ok n \<Longrightarrow> wf s lo n \<Longrightarrow> 0 \<le> lo \<Longrightarrow> num_keys n < 3 \<Longrightarrow> (s \<longrightarrow> key \<notin> tree_keys n) \<Longrightarrow>
    \<exists>n' m'. btree_insert_nonfull ok n key m = Inr (n', m') \<and> wf s lo n'
       \<and> tree_keys n' = insert key (tree_keys n) \<and> tree_size n' = tree_size n + 1
       \<and> calls m \<le> calls m' \<and> live m \<le> live m'"
proof (induction ok n key m arbitrary: lo rule: btree_insert_nonfull.induct)
  case (1 ok node key m)
  note ok = "1.prems"(1) and w = "1.prems"(2) and lo = "1.prems"(3) and nf = "1.prems"(4)
    and d = "1.prems"(5)
  show ?case
  proof (cases "is_leaf node")
    case True
    from insert_leaf [OF w True nf lo d, of ok m] show ?thesis
      using wf_mono [of s "lo + 1" _ lo] by auto
  next
    case False
    from find_child_spec [OF w lo, of key] obtain i where
      fc: "find_child key node (num_keys node) = Inr i" and i: "0 \<le> i" "i \<le> num_keys node"
      and lw: "0 < i \<longrightarrow> keys node ! nat (i - 1) \<le> key"
      and hi: "i < num_keys node \<longrightarrow> key < keys node ! nat i" by blast
    from split_if_full_spec [OF w False nf lo ok d i lw hi, of m]
    obtain p' m' j c where sif: "split_if_full ok node key i m = Inr (p', m', j)"
      and wp: "wf s lo p'" and nlp: "\<not> is_leaf p'" and tk: "tree_keys p' = tree_keys node"
      and tsz: "tree_size p' = tree_size node" and mm: "calls m \<le> calls m'" "live m \<le> live m'"
      and j: "0 \<le> j" "j \<le> num_keys p'" and c: "child_at p' j = Inr (Some c)" and wc: "wf s 1 c"
      and nfc: "num_keys c < 3"
      and bhi: "j < num_keys p' \<longrightarrow> lt s key (keys p' ! nat j)"
      and blo: "0 < j \<longrightarrow> lt s (keys p' ! nat (j - 1)) key" by blast
    have dc: "s \<longrightarrow> key \<notin> tree_keys c"
      using tree_keys_child [OF c nlp j] tk d by auto
    from "1.IH" [OF False fc sif refl refl c refl ok wc _ nfc dc]
    obtain c' m2 where r: "btree_insert_nonfull ok c key m' = Inr (c', m2)" and wc': "wf s 1 c'"
      and tkc: "tree_keys c' = insert key (tree_keys c)" and tsc: "tree_size c' = tree_size c + 1"
      and mm2: "calls m' \<le> calls m2" "live m' \<le> live m2" by auto
    have res: "btree_insert_nonfull ok node key m = Inr (put_child p' j c', m2)"
      using False fc sif c r by (subst btree_insert_nonfull.simps) simp
    from put_child_wf [OF wp nlp j c wc' tkc bhi blo] put_child_tree_keys [OF nlp j c tkc]
      put_child_tree_size [OF nlp j c tsc] tk tsz res mm mm2
    show ?thesis by simp
  qed
qed

lemma search_scan_spec:
  assumes w: "wf s lo n" and lo: "0 \<le> lo"
  shows "\<exists>found i. search_scan key n 0 = Inr (found, i) \<and> (found \<longleftrightarrow> key \<in> set (live_keys n))
     \<and> 0 \<le> i \<and> i \<le> num_keys n
     \<and> (\<not> found \<longrightarrow> (0 < i \<longrightarrow> keys n ! nat (i - 1) < key) \<and> (i < num_keys n \<longrightarrow> key < keys n ! nat i))"
proof -
  from w obtain l' nk a b c c0 c1 c2 c3 where n: "n = Node l' nk [a, b, c] [c0, c1, c2, c3]" "lo \<le> nk" "nk \<le> 3"
    by (rule wf_shape)
  with lo have "nk = 0 \<or> nk = 1 \<or> nk = 2 \<or> nk = 3" by auto
  then show ?thesis
    using n w
    apply (elim disjE)
       apply (simp_all add: search_scan.simps key_at_def live_keys_def wf_Node lt_def)
       apply (auto simp: eval_nat_numeral split: if_splits)
    done
qed

lemma wf_keys_mono:
  assumes w: "wf s lo n" and ab: "0 \<le> a" "a \<le> b" "b < num_keys n"
  shows "keys n ! nat a \<le> keys n ! nat b"
proof -
  from w have len: "int (length (keys n)) = 3" and nk: "num_keys n \<le> 3"
    and so: "sorted_wrt (lt s) (live_keys n)"
    by (subst (asm) wf.simps, simp add: BTREE_MAX_KEYS_def BTREE_ORDER_def)+
  from so have "sorted (live_keys n)"
    by (rule sorted_wrt_mono_rel [rotated]) (auto simp: lt_def split: if_splits)
  moreover have "nat a \<le> nat b" "nat b < length (live_keys n)"
    using ab len nk by (auto simp: live_keys_def)
  ultimately have "live_keys n ! nat a \<le> live_keys n ! nat b" by (rule sorted_nth_mono)
  then show ?thesis using ab by (simp add: live_keys_def)
qed

lemma lt_le: "lt s a b \<Longrightarrow> a \<le> b"
  by (auto simp: lt_def split: if_splits)

lemma search_descend:
  assumes w: "wf s lo n" and nl: "\<not> is_leaf n"
    and i: "0 \<le> i" "i \<le> num_keys n"
    and nf: "key \<notin> set (live_keys n)"
    and lw: "0 < i \<longrightarrow> keys n ! nat (i - 1) < key"
    and hi: "i < num_keys n \<longrightarrow> key < keys n ! nat i"
  shows "\<exists>c. child_at n i = Inr (Some c) \<and> wf s 1 c \<and> (key \<in> tree_keys n \<longleftrightarrow> key \<in> tree_keys c)"
proof -
  from wf_child [OF w nl i] obtain c where c: "child_at n i = Inr (Some c)" and wc: "wf s 1 c"
    by blast
  have "key \<in> tree_keys c" if k: "key \<in> tree_keys n"
  proof -
    from k nf nl obtain j where j: "j \<in> {0..num_keys n}"
      and kj: "key \<in> (case child_at n j of Inr (Some c) \<Rightarrow> tree_keys c | _ \<Rightarrow> {})"
      by (subst (asm) tree_keys.simps) auto
    from j have j': "0 \<le> j" "j \<le> num_keys n" by auto
    from wf_child [OF w nl j'] obtain cj where cj: "child_at n j = Inr (Some cj)"
      and bj: "\<forall>k \<in> tree_keys cj. (j < num_keys n \<longrightarrow> lt s k (keys n ! nat j))
                          \<and> (0 < j \<longrightarrow> lt s (keys n ! nat (j - 1)) k)" by blast
    from kj cj have kin: "key \<in> tree_keys cj" by simp
    have "j = i"
    proof (rule ccontr)
      assume ne: "j \<noteq> i"
      show False
      proof (cases "j < i")
        case True
        with i have "j < num_keys n" by simp
        with bj kin have 1: "key \<le> keys n ! nat j" by (auto dest: lt_le)
        from True j' i have "keys n ! nat j \<le> keys n ! nat (i - 1)"
          by (intro wf_keys_mono [OF w]) auto
        with 1 lw True j' show False by auto
      next
        case False
        with ne have gt: "i < j" by simp
        with i j' bj kin have 1: "keys n ! nat (j - 1) \<le> key" by (auto dest: lt_le)
        from gt j' i have "keys n ! nat i \<le> keys n ! nat (j - 1)"
          by (intro wf_keys_mono [OF w]) auto
        with 1 hi gt j' show False by auto
      qed
    qed
    with cj c kin show ?thesis by simp
  qed
  moreover have "key \<in> tree_keys n" if "key \<in> tree_keys c"
    using tree_keys_child [OF c nl i] that by auto
  ultimately show ?thesis using c wc by blast
qed

lemma search_node_spec:
  "wf s lo n \<Longrightarrow> 0 \<le> lo \<Longrightarrow> search_node n key = Inr (key \<in> tree_keys n)"
proof (induction n key arbitrary: lo rule: search_node.induct)
  case (1 node key)
  note w = "1.prems"(1) and lo = "1.prems"(2)
  from search_scan_spec [OF w lo, of key] obtain found i where
    sc: "search_scan key node 0 = Inr (found, i)" and f: "found \<longleftrightarrow> key \<in> set (live_keys node)"
    and i: "0 \<le> i" "i \<le> num_keys node"
    and b: "\<not> found \<longrightarrow> (0 < i \<longrightarrow> keys node ! nat (i - 1) < key)
         \<and> (i < num_keys node \<longrightarrow> key < keys node ! nat i)" by blast
  show ?case
  proof (cases found)
    case True
    with f have "key \<in> tree_keys node" by (subst tree_keys.simps) simp
    with True sc show ?thesis by (subst search_node.simps) simp
  next
    case nfound: False
    show ?thesis
    proof (cases "is_leaf node")
      case True
      with f nfound have "key \<notin> tree_keys node" by (subst tree_keys.simps) simp
      with True nfound sc show ?thesis by (subst search_node.simps) simp
    next
      case False
      from nfound f have nf: "key \<notin> set (live_keys node)" by simp
      from search_descend [OF w False i nf] b nfound obtain c where
        c: "child_at node i = Inr (Some c)" and wc: "wf s 1 c"
        and eq: "key \<in> tree_keys node \<longleftrightarrow> key \<in> tree_keys c" by auto
      from "1.IH" [OF sc refl _ False c refl wc] nfound
      have "search_node c key = Inr (key \<in> tree_keys c)" by simp
      with False nfound sc c eq show ?thesis by (subst search_node.simps) simp
    qed
  qed
qed

lemma wf_lower: "wf s lo n \<Longrightarrow> lo' \<le> num_keys n \<Longrightarrow> wf s lo' n"
  by (subst wf.simps, subst (asm) wf.simps) auto

lemma wf_new_root:
  assumes w: "wf s 0 r" and full: "num_keys r = 3"
  shows "wf s 0 (Node False 0 [0, 0, 0] [Some r, None, None, None])"
    and "tree_keys (Node False 0 [0, 0, 0] [Some r, None, None, None]) = tree_keys r"
    and "tree_size (Node False 0 [0, 0, 0] [Some r, None, None, None]) = tree_size r"
proof -
  from w full have "wf s 1 r" by (auto intro: wf_lower)
  then show "wf s 0 (Node False 0 [0, 0, 0] [Some r, None, None, None])"
    by (simp add: wf_Node child_at_def live_keys_def BTREE_MAX_KEYS_def BTREE_ORDER_def)
  show "tree_keys (Node False 0 [0, 0, 0] [Some r, None, None, None]) = tree_keys r"
    by (simp add: tree_keys_Node child_at_def live_keys_def)
  show "tree_size (Node False 0 [0, 0, 0] [Some r, None, None, None]) = tree_size r"
    by (simp add: tree_size_Node child_at_def live_keys_def)
qed

lemma root_update_same: "root t = x \<Longrightarrow> t\<lparr>root := x\<rparr> = t"
  by (cases t) simp

lemma btree_insert_spec:
  assumes ok: "\<forall>n. ok n" and r: "root t = Some r" and w: "wf s 0 r"
    and d: "s \<longrightarrow> key \<notin> tree_keys r"
  shows "\<exists>r' m'. btree_insert ok (Some t) key m = Inr (Some (t\<lparr>root := Some r'\<rparr>), m')
     \<and> wf s 0 r' \<and> tree_keys r' = insert key (tree_keys r) \<and> tree_size r' = tree_size r + 1"
proof (cases "num_keys r = 3")
  case False
  from w have "num_keys r \<le> 3" by (subst (asm) wf.simps) (simp add: BTREE_MAX_KEYS_def BTREE_ORDER_def)
  with False have nf: "num_keys r < 3" by simp
  from insert_nonfull_spec [OF ok w _ nf d, of m] obtain r' m' where
    "btree_insert_nonfull ok r key m = Inr (r', m')" "wf s 0 r'"
    "tree_keys r' = insert key (tree_keys r)" "tree_size r' = tree_size r + 1" by auto
  with r False show ?thesis
    by (intro exI [of _ r'] exI [of _ m']) (simp add: btree_insert_def BTREE_MAX_KEYS_def BTREE_ORDER_def)
next
  case True
  let ?nr = "Node False 0 [0, 0, 0] [Some r, None, None, None]"
  let ?m1 = "\<lparr>calls = Suc (calls m), live = Suc (live m)\<rparr>"
  from ok have kz: "kzalloc ok m = (True, ?m1)" by (simp add: kzalloc_def)
  have nr: "set_child (set_num_keys (set_is_leaf zero_node False) 0) 0 (Some r) = Inr ?nr"
    by (simp add: set_child_def set_num_keys_def set_is_leaf_def zero_node_def
        BTREE_MAX_KEYS_def BTREE_ORDER_def eval_nat_numeral)
  note wn = wf_new_root [OF w True]
  have c0: "child_at ?nr 0 = Inr (Some r)" by (simp add: child_at_def)
  from ok have ok1: "ok (calls ?m1)" by simp
  from split_child_spec [where ok = ok and m = ?m1, OF wn(1) _ _ _ _ _ c0 True ok1]
  obtain p' where sp: "btree_split_child ok ?nr 0 ?m1 = Inr (p', \<lparr>calls = Suc (calls ?m1), live = Suc (live ?m1)\<rparr>)"
    and wp: "wf s 1 p'" and nk: "num_keys p' = 1" and tk: "tree_keys p' = tree_keys ?nr"
    and tsz: "tree_size p' = tree_size ?nr" by auto
  from wp have wp0: "wf s 0 p'" by (rule wf_mono) simp
  from nk have nf: "num_keys p' < 3" by simp
  from d tk wn(2) have d': "s \<longrightarrow> key \<notin> tree_keys p'" by simp
  from insert_nonfull_spec [OF ok wp0 _ nf d', of "\<lparr>calls = Suc (calls ?m1), live = Suc (live ?m1)\<rparr>"]
  obtain r' m' where
    "btree_insert_nonfull ok p' key \<lparr>calls = Suc (calls ?m1), live = Suc (live ?m1)\<rparr> = Inr (r', m')"
    "wf s 0 r'" "tree_keys r' = insert key (tree_keys p')" "tree_size r' = tree_size p' + 1" by auto
  with r True kz nr sp tk tsz wn show ?thesis
    by (intro exI [of _ r'] exI [of _ m']) (simp add: btree_insert_def BTREE_MAX_KEYS_def BTREE_ORDER_def)
qed

lemma insert_all_spec:
  "\<forall>n. ok n \<Longrightarrow> root t = Some r \<Longrightarrow> wf s 0 r \<Longrightarrow> (s \<longrightarrow> distinct ks \<and> set ks \<inter> tree_keys r = {}) \<Longrightarrow>
   \<exists>r' m'. insert_all ok ks (Some t, m) = Inr (Some (t\<lparr>root := Some r'\<rparr>), m')
     \<and> wf s 0 r' \<and> tree_keys r' = set ks \<union> tree_keys r \<and> tree_size r' = tree_size r + length ks"
proof (induction ks arbitrary: t r m)
  case Nil
  then show ?case by (intro exI [of _ r] exI [of _ m]) (simp add: root_update_same)
next
  case (Cons k ks)
  from Cons.prems(4) have d: "s \<longrightarrow> k \<notin> tree_keys r" by auto
  from btree_insert_spec [OF Cons.prems(1,2,3) d, of m] obtain r1 m1 where
    b: "btree_insert ok (Some t) k m = Inr (Some (t\<lparr>root := Some r1\<rparr>), m1)"
    and w1: "wf s 0 r1" and tk1: "tree_keys r1 = insert k (tree_keys r)"
    and ts1: "tree_size r1 = tree_size r + 1" by blast
  have r1: "root (t\<lparr>root := Some r1\<rparr>) = Some r1" by simp
  from Cons.prems(4) tk1 have d1: "s \<longrightarrow> distinct ks \<and> set ks \<inter> tree_keys r1 = {}" by auto
  from Cons.IH [OF Cons.prems(1) r1 w1 d1, of m1] obtain r' m' where
    "insert_all ok ks (Some (t\<lparr>root := Some r1\<rparr>), m1) = Inr (Some (t\<lparr>root := Some r'\<rparr>), m')"
    "wf s 0 r'" "tree_keys r' = set ks \<union> tree_keys r1" "tree_size r' = tree_size r1 + length ks"
    by auto
  with b tk1 ts1 show ?case by auto
qed

lemma wf_fresh:
  "wf s 0 (Node True 0 [0, 0, 0] [None, None, None, None])"
  "tree_keys (Node True 0 [0, 0, 0] [None, None, None, None]) = {}"
  "tree_size (Node True 0 [0, 0, 0] [None, None, None, None]) = 0"
  by (simp_all add: wf_Node tree_keys_Node tree_size_Node live_keys_def BTREE_MAX_KEYS_def BTREE_ORDER_def)

lemma fresh_run:
  assumes ok: "\<forall>n. ok n" and d: "s \<longrightarrow> distinct ks"
  shows "\<exists>r m'. insert_all ok ks (btree_init ok m) = Inr (Some \<lparr>root = Some r\<rparr>, m')
     \<and> wf s 0 r \<and> tree_keys r = set ks \<and> tree_size r = length ks"
proof -
  let ?r0 = "Node True 0 [0, 0, 0] [None, None, None, None]"
  from ok have i: "btree_init ok m = (Some \<lparr>root = Some ?r0\<rparr>, \<lparr>calls = calls m + 2, live = live m + 2\<rparr>)"
    by (simp add: btree_init_def kzalloc_def zero_node_def set_num_keys_def
        set_is_leaf_def BTREE_MAX_KEYS_def BTREE_ORDER_def eval_nat_numeral)
  have "root \<lparr>root = Some ?r0\<rparr> = Some ?r0" by simp
  from insert_all_spec [OF ok this wf_fresh(1), of s ks "\<lparr>calls = calls m + 2, live = live m + 2\<rparr>"] d
  show ?thesis unfolding i by (auto simp: wf_fresh)
qed

lemma wf_occupancy: "wf s lo n \<Longrightarrow> occupancy lo n"
proof (induction n arbitrary: lo rule: measure_induct_rule [where f = height])
  case (less n)
  have kids: "case child_at n i of Inr (Some c) \<Rightarrow> occupancy BTREE_MIN_KEYS c | _ \<Rightarrow> True"
    if nl: "\<not> is_leaf n" and i: "i \<in> {0..num_keys n}" for i
  proof -
    from i have "0 \<le> i" "i \<le> num_keys n" by auto
    from wf_child [OF less.prems nl this] obtain c where
      c: "child_at n i = Inr (Some c)" and wc: "wf s 1 c" by blast
    from less.IH [OF child_at_height [OF c] wc] c show ?thesis
      by (simp add: BTREE_MIN_KEYS_def BTREE_MAX_KEYS_def BTREE_ORDER_def)
  qed
  from less.prems have "lo \<le> num_keys n \<and> num_keys n \<le> BTREE_MAX_KEYS"
    by (subst (asm) wf.simps) simp
  with kids show ?case by (subst occupancy.simps) simp
qed

lemma wf_order_inv: "wf s lo n \<Longrightarrow> order_inv s n"
proof (induction n arbitrary: lo rule: measure_induct_rule [where f = height])
  case (less n)
  have kids: "case child_at n i of
           Inr (Some c) \<Rightarrow>
             order_inv s c
             \<and> (i < num_keys n \<longrightarrow>
                  (\<forall>k \<in> tree_keys c. if s then k < keys n ! nat i else k \<le> keys n ! nat i))
             \<and> (0 < i \<longrightarrow> (\<forall>k \<in> tree_keys c. keys n ! nat (i - 1) \<le> k))
         | _ \<Rightarrow> True"
    if nl: "\<not> is_leaf n" and i: "i \<in> {0..num_keys n}" for i
  proof -
    from i have "0 \<le> i" "i \<le> num_keys n" by auto
    from wf_child [OF less.prems nl this] obtain c where
      c: "child_at n i = Inr (Some c)" and wc: "wf s 1 c"
      and b: "\<forall>k \<in> tree_keys c. (i < num_keys n \<longrightarrow> lt s k (keys n ! nat i))
                          \<and> (0 < i \<longrightarrow> lt s (keys n ! nat (i - 1)) k)" by blast
    from less.IH [OF child_at_height [OF c] wc] c b show ?thesis
      by (auto simp: lt_def split: if_splits)
  qed
  show ?case
  proof (cases "is_leaf n")
    case True
    then show ?thesis by (subst order_inv.simps) simp
  next
    case False
    show ?thesis by (subst order_inv.simps, rule disjI2, rule ballI, rule kids [OF False])
  qed
qed

lemma int_sets:
  "{0..<0::int} = {}" "{0..<1::int} = {0}" "{0..<2::int} = {0, 1}" "{0..<3::int} = {0, 1, 2}"
  "{1..<1::int} = {}" "{1..<2::int} = {1}" "{2..<2::int} = {}"
  "{0<..0::int} = {}" "{0<..1::int} = {1}" "{0<..2::int} = {1, 2}"
  "{1<..1::int} = {}" "{1<..2::int} = {2}" "{2<..2::int} = {}"
  by auto

section \<open>Creation and null handles\<close>

text \<open>
  Claim C9. \<^verbatim>\<open>btree_init\<close> returns a handle whose root is one empty leaf (leaf flag set,
  no keys, no child) when both allocations succeed, and both objects are then live. When
  the allocation of the handle or of the root node fails it returns \<^verbatim>\<open>NULL\<close> and no
  object stays allocated: the handle allocated before a failed root allocation is freed.
\<close>

theorem btree_init_result:
  "btree_init ok m =
     (if ok (calls m) \<and> ok (Suc (calls m))
      then (Some \<lparr>root = Some (Node True 0 [0, 0, 0] [None, None, None, None])\<rparr>,
            \<lparr>calls = calls m + 2, live = live m + 2\<rparr>)
      else (None, \<lparr>calls = (if ok (calls m) then calls m + 2 else calls m + 1), live = live m\<rparr>))"
  by (simp add: btree_init_def kzalloc_def kfree_def zero_node_def set_num_keys_def
      set_is_leaf_def BTREE_MAX_KEYS_def BTREE_ORDER_def eval_nat_numeral)

text \<open>
  Claim C10, as stated, fails for \<^verbatim>\<open>btree_destroy\<close> on a handle whose root pointer is
  null: the call is not a no-op there. It skips \<^verbatim>\<open>btree_free_node\<close> and then frees the
  handle itself (\<^verbatim>\<open>kfree(tree)\<close>), so one live object fewer remains.
\<close>

theorem destroy_null_root_counterexample:
  "btree_destroy (Some \<lparr>root = None\<rparr>) \<lparr>calls = 1, live = 1\<rparr> = Inr \<lparr>calls = 1, live = 0\<rparr>
   \<and> btree_destroy (Some \<lparr>root = None\<rparr>) \<lparr>calls = 1, live = 1\<rparr> \<noteq> Inr \<lparr>calls = 1, live = 1\<rparr>"
  by (simp add: btree_destroy_def kfree_def)

text \<open>
  Claim C10, amended. No public operation follows a null handle or a null root pointer.
  On either of them \<^verbatim>\<open>btree_search\<close> returns false, \<^verbatim>\<open>btree_insert\<close> returns with the tree
  and the allocator as they were, and \<^verbatim>\<open>btree_print\<close> logs that the tree is empty.
  \<^verbatim>\<open>btree_destroy\<close> is a no-op on a null handle; on a handle whose root is null it visits
  no node and frees the handle alone.
\<close>

theorem null_handle_tolerated:
  "btree_search None key = Inr False
   \<and> btree_search (Some \<lparr>root = None\<rparr>) key = Inr False
   \<and> btree_insert ok None key m = Inr (None, m)
   \<and> btree_insert ok (Some \<lparr>root = None\<rparr>) key m = Inr (Some \<lparr>root = None\<rparr>, m)
   \<and> btree_destroy None m = Inr m
   \<and> btree_destroy (Some \<lparr>root = None\<rparr>) m = Inr (kfree m)
   \<and> kfree m = \<lparr>calls = calls m, live = live m - 1\<rparr>
   \<and> btree_print None log = Inr (log @ [(KERN_INFO, ''B+ Tree is empty.'' @ [CHR 0x0A])])
   \<and> btree_print (Some \<lparr>root = None\<rparr>) log
       = Inr (log @ [(KERN_INFO, ''B+ Tree is empty.'' @ [CHR 0x0A])])"
  by (simp add: btree_search_def btree_insert_def btree_destroy_def btree_print_def printk_def
      kfree_def)

section \<open>Search and insertion\<close>

text \<open>
  Claim C1. When every allocation succeeds, any list of keys can be inserted into a
  freshly created tree without a fault, and afterwards \<^verbatim>\<open>btree_search\<close> returns true for
  exactly the keys of the list.
\<close>

theorem search_finds_exactly_inserted:
  assumes "\<forall>n. ok n"
  shows "\<exists>t m'. insert_all ok ks (btree_init ok m) = Inr (t, m')
           \<and> (\<forall>k. btree_search t k = Inr (k \<in> set ks))"
proof -
  from fresh_run [OF assms, of False ks m] obtain r m' where
    run: "insert_all ok ks (btree_init ok m) = Inr (Some \<lparr>root = Some r\<rparr>, m')"
    and w: "wf False 0 r" and tk: "tree_keys r = set ks" by auto
  have "btree_search (Some \<lparr>root = Some r\<rparr>) k = Inr (k \<in> set ks)" for k
    using search_node_spec [OF w, of k] tk by (simp add: btree_search_def)
  with run show ?thesis by blast
qed

theorem search_finds_exactly_inserted_witness:
  "\<exists>t m'. insert_all (\<lambda>_. True) [10, 20, 30, 40] (btree_init (\<lambda>_. True) \<lparr>calls = 0, live = 0\<rparr>) = Inr (t, m')
     \<and> btree_search t 20 = Inr True \<and> btree_search t 25 = Inr False"
proof -
  have "\<forall>n. (\<lambda>_. True) n" by simp
  from search_finds_exactly_inserted [OF this, of "[10, 20, 30, 40]" "\<lparr>calls = 0, live = 0\<rparr>"]
  obtain t m' where
    r: "insert_all (\<lambda>_. True) [10, 20, 30, 40] (btree_init (\<lambda>_. True) \<lparr>calls = 0, live = 0\<rparr>) = Inr (t, m')"
    and s: "\<forall>k. btree_search t k = Inr (k \<in> set [10, 20, 30, 40])" by blast
  from s have "btree_search t 20 = Inr True" "btree_search t 25 = Inr False" by simp_all
  with r show ?thesis by blast
qed

text \<open>
  Claim C8. When every allocation succeeds, in any state reached by insertions a key
  can be inserted twice: both calls return normally, each of them stores one more key
  in the tree, and \<^verbatim>\<open>btree_search\<close> finds the key afterwards.
\<close>

theorem duplicate_insert_accepted:
  assumes ok: "\<forall>n. ok n"
  shows "\<exists>h m1 h1 m2 h2 m3 r r2.
           insert_all ok ks (btree_init ok m) = Inr (Some h, m1)
           \<and> btree_insert ok (Some h) k m1 = Inr (Some h1, m2)
           \<and> btree_insert ok (Some h1) k m2 = Inr (Some h2, m3)
           \<and> btree_search (Some h2) k = Inr True
           \<and> root h = Some r \<and> root h2 = Some r2 \<and> tree_size r2 = tree_size r + 2"
proof -
  from fresh_run [OF ok, of False ks m] obtain r m1 where
    run: "insert_all ok ks (btree_init ok m) = Inr (Some \<lparr>root = Some r\<rparr>, m1)"
    and w: "wf False 0 r" by auto
  let ?h = "\<lparr>root = Some r\<rparr>"
  have rr: "root ?h = Some r" by simp
  from btree_insert_spec [OF ok rr w, of k m1] obtain r1 m2 where
    i1: "btree_insert ok (Some ?h) k m1 = Inr (Some (?h\<lparr>root := Some r1\<rparr>), m2)"
    and w1: "wf False 0 r1" and ts1: "tree_size r1 = tree_size r + 1" by auto
  let ?h1 = "?h\<lparr>root := Some r1\<rparr>"
  have rr1: "root ?h1 = Some r1" by simp
  from btree_insert_spec [OF ok rr1 w1, of k m2] obtain r2 m3 where
    i2: "btree_insert ok (Some ?h1) k m2 = Inr (Some (?h1\<lparr>root := Some r2\<rparr>), m3)"
    and w2: "wf False 0 r2" and tk2: "tree_keys r2 = insert k (tree_keys r1)"
    and ts2: "tree_size r2 = tree_size r1 + 1" by auto
  let ?h2 = "?h1\<lparr>root := Some r2\<rparr>"
  have "btree_search (Some ?h2) k = Inr True"
    using search_node_spec [OF w2, of k] tk2 by (simp add: btree_search_def)
  moreover have "root ?h2 = Some r2" "tree_size r2 = tree_size r + 2" using ts1 ts2 by simp_all
  ultimately show ?thesis using run i1 i2 rr by blast
qed

theorem duplicate_insert_accepted_witness:
  "\<exists>h m1 h1 m2 h2 m3 r r2.
     insert_all (\<lambda>_. True) [10, 20, 30] (btree_init (\<lambda>_. True) \<lparr>calls = 0, live = 0\<rparr>) = Inr (Some h, m1)
     \<and> btree_insert (\<lambda>_. True) (Some h) 20 m1 = Inr (Some h1, m2)
     \<and> btree_insert (\<lambda>_. True) (Some h1) 20 m2 = Inr (Some h2, m3)
     \<and> btree_search (Some h2) 20 = Inr True
     \<and> root h = Some r \<and> root h2 = Some r2 \<and> tree_size r2 = tree_size r + 2"
proof -
  have "\<forall>n. (\<lambda>_. True) n" by simp
  from duplicate_insert_accepted [OF this, of "[10, 20, 30]" "\<lparr>calls = 0, live = 0\<rparr>" 20]
  show ?thesis .
qed

section \<open>Invariants of the tree\<close>

text \<open>
  Claim C7. When every allocation succeeds, after any list of insertions into a freshly
  created tree the key count of the root is between 0 and \<open>BTREE_MAX_KEYS\<close> and the key
  count of every other node is between \<open>BTREE_MIN_KEYS = 1\<close> and \<open>BTREE_MAX_KEYS = 3\<close>.
\<close>

theorem occupancy_after_inserts:
  assumes "\<forall>n. ok n"
  shows "\<exists>r m'. insert_all ok ks (btree_init ok m) = Inr (Some \<lparr>root = Some r\<rparr>, m')
           \<and> occupancy 0 r \<and> BTREE_MIN_KEYS = 1 \<and> BTREE_MAX_KEYS = 3"
proof -
  from fresh_run [OF assms, of False ks m] obtain r m' where
    "insert_all ok ks (btree_init ok m) = Inr (Some \<lparr>root = Some r\<rparr>, m')" "wf False 0 r" by auto
  then show ?thesis
    by (auto dest: wf_occupancy simp: BTREE_MIN_KEYS_def BTREE_MAX_KEYS_def BTREE_ORDER_def)
qed

theorem occupancy_after_inserts_witness:
  "\<exists>r m'. insert_all (\<lambda>_. True) [10, 20, 30, 40, 50] (btree_init (\<lambda>_. True) \<lparr>calls = 0, live = 0\<rparr>)
             = Inr (Some \<lparr>root = Some r\<rparr>, m')
           \<and> occupancy 0 r \<and> BTREE_MIN_KEYS = 1 \<and> BTREE_MAX_KEYS = 3"
proof -
  have "\<forall>n. (\<lambda>_. True) n" by simp
  from occupancy_after_inserts [OF this, of "[10, 20, 30, 40, 50]" "\<lparr>calls = 0, live = 0\<rparr>"]
  show ?thesis .
qed

text \<open>
  Claim C2, as the specification states it, fails. After the insertions
  10, 20, 30, 40, 50, 40 the root has the keys 20 and 40, and the subtree in its slot 1
  holds 30 and 40: the key 40 of that subtree is not strictly less than key 1 of the
  root. The second 40 arrives when the leaf 30, 40, 50 is full; the split promotes 40,
  and \<^verbatim>\<open>key > node->keys[i]\<close> is false for the equal key, which stays in the left half.
\<close>

theorem strict_order_counterexample:
  "insert_all (\<lambda>_. True) [10, 20, 30, 40, 50, 40] (btree_init (\<lambda>_. True) \<lparr>calls = 0, live = 0\<rparr>)
     = Inr (Some \<lparr>root = Some (Node False 2 [20, 40, 0]
               [Some (Node True 1 [10, 20, 30] [None, None, None, None]),
                Some (Node True 2 [30, 40, 50] [None, None, None, None]),
                Some (Node True 1 [50, 0, 0] [None, None, None, None]),
                None])\<rparr>, \<lparr>calls = 5, live = 5\<rparr>)
   \<and> \<not> order_inv True (Node False 2 [20, 40, 0]
               [Some (Node True 1 [10, 20, 30] [None, None, None, None]),
                Some (Node True 2 [30, 40, 50] [None, None, None, None]),
                Some (Node True 1 [50, 0, 0] [None, None, None, None]),
                None])"
  by code_simp

text \<open>
  Claim C2, amended. When every allocation succeeds, after any list of insertions into a
  freshly created tree every internal node satisfies: the keys of the subtree in slot
  \<open>i\<close> are less than or equal to key \<open>i\<close> and the keys of the subtree in slot
  \<open>i + 1\<close> are greater than or equal to key \<open>i\<close>. When the inserted keys are pairwise
  distinct the first comparison is strict, as the specification states it.
\<close>

theorem order_after_inserts:
  assumes ok: "\<forall>n. ok n"
  shows "\<exists>r m'. insert_all ok ks (btree_init ok m) = Inr (Some \<lparr>root = Some r\<rparr>, m')
           \<and> order_inv False r \<and> (distinct ks \<longrightarrow> order_inv True r)"
proof -
  from fresh_run [OF ok, of False ks m] obtain r m' where
    run: "insert_all ok ks (btree_init ok m) = Inr (Some \<lparr>root = Some r\<rparr>, m')"
    and w: "wf False 0 r" by auto
  have "order_inv True r" if "distinct ks"
  proof -
    from fresh_run [OF ok, of True ks m] that obtain r' m'' where
      "insert_all ok ks (btree_init ok m) = Inr (Some \<lparr>root = Some r'\<rparr>, m'')" "wf True 0 r'" by auto
    with run show ?thesis by (auto dest: wf_order_inv)
  qed
  with run w show ?thesis by (auto dest: wf_order_inv)
qed

theorem order_after_inserts_witness:
  "\<exists>r m'. insert_all (\<lambda>_. True) [10, 20, 30, 40, 50] (btree_init (\<lambda>_. True) \<lparr>calls = 0, live = 0\<rparr>)
             = Inr (Some \<lparr>root = Some r\<rparr>, m')
           \<and> order_inv False r \<and> order_inv True r"
proof -
  have "\<forall>n. (\<lambda>_. True) n" by simp
  from order_after_inserts [OF this, of "[10, 20, 30, 40, 50]" "\<lparr>calls = 0, live = 0\<rparr>"]
  show ?thesis by simp
qed

section \<open>Node split\<close>

text \<open>
  Claim C6. Let slot \<open>index\<close> of the parent hold a node with \<open>BTREE_MAX_KEYS\<close> keys, let
  the parent have room for one more key, let the allocation succeed and
  \<open>mid = BTREE_MAX_KEYS div 2\<close>. Then \<^verbatim>\<open>btree_split_child\<close> returns normally and
  \<^item> the new sibling has the leaf flag of the full child, \<open>BTREE_MAX_KEYS - mid - 1\<close> keys,
    which are the keys of the full child from position \<open>mid + 1\<close> on, and, when the child
    is internal, the children of the full child from position \<open>mid + 1\<close> on;
  \<^item> slot \<open>index\<close> of the parent holds the full child with its key count set to \<open>mid\<close>
    and its arrays as they were, and slot \<open>index + 1\<close> holds the sibling;
  \<^item> key \<open>index\<close> of the parent is key \<open>mid\<close> of the full child; the keys and children
    of the parent below \<open>index\<close> are unchanged, its keys from \<open>index\<close> on and its
    children above \<open>index\<close> have moved one position to the right;
  \<^item> the key count of the parent has grown by one.
\<close>

theorem split_child_result:
  assumes shape: "int (length (keys parent)) = BTREE_MAX_KEYS" "int (length (children parent)) = BTREE_ORDER"
      "int (length (keys full)) = BTREE_MAX_KEYS" "int (length (children full)) = BTREE_ORDER"
    and idx: "0 \<le> index" "index \<le> num_keys parent"
    and room: "num_keys parent < BTREE_MAX_KEYS"
    and child: "child_at parent index = Inr (Some full)"
    and full: "num_keys full = BTREE_MAX_KEYS"
    and ok: "ok (calls m)"
    and mid: "mid = BTREE_MAX_KEYS div 2"
  shows "\<exists>parent' sibling.
      btree_split_child ok parent index m
        = Inr (parent', \<lparr>calls = Suc (calls m), live = Suc (live m)\<rparr>)
      \<and> is_leaf sibling = is_leaf full \<and> num_keys sibling = BTREE_MAX_KEYS - mid - 1
      \<and> (\<forall>j \<in> {0..<num_keys sibling}. key_at sibling j = key_at full (j + mid + 1))
      \<and> (\<not> is_leaf full \<longrightarrow>
           (\<forall>j \<in> {0..num_keys sibling}. child_at sibling j = child_at full (j + mid + 1)))
      \<and> child_at parent' index = Inr (Some (set_num_keys full mid))
      \<and> child_at parent' (index + 1) = Inr (Some sibling)
      \<and> key_at parent' index = key_at full mid
      \<and> (\<forall>j \<in> {0..<index}. key_at parent' j = key_at parent j \<and> child_at parent' j = child_at parent j)
      \<and> (\<forall>j \<in> {index..<num_keys parent}. key_at parent' (j + 1) = key_at parent j)
      \<and> (\<forall>j \<in> {index<..num_keys parent}. child_at parent' (j + 1) = child_at parent j)
      \<and> num_keys parent' = num_keys parent + 1 \<and> is_leaf parent' = is_leaf parent"
proof -
  from shape obtain a b c c0 c1 c2 c3 x y z d0 d1 d2 d3 where
    ks: "keys parent = [a, b, c]" "children parent = [c0, c1, c2, c3]"
      "keys full = [x, y, z]" "children full = [d0, d1, d2, d3]"
    by (auto simp: BTREE_MAX_KEYS_def BTREE_ORDER_def dest!: length3 length4)
  obtain lp nk where p: "parent = Node lp nk [a, b, c] [c0, c1, c2, c3]"
    using ks by (cases parent) auto
  obtain lf where f: "full = Node lf 3 [x, y, z] [d0, d1, d2, d3]"
    using ks full by (cases full) (auto simp: BTREE_MAX_KEYS_def BTREE_ORDER_def)
  from p idx room have cases: "(nk = 0 \<and> index = 0) \<or> (nk = 1 \<and> index = 0) \<or> (nk = 1 \<and> index = 1)
     \<or> (nk = 2 \<and> index = 0) \<or> (nk = 2 \<and> index = 1) \<or> (nk = 2 \<and> index = 2)"
    by (auto simp: BTREE_MAX_KEYS_def BTREE_ORDER_def)
  from cases show ?thesis
    using child ok p f mid
    apply (elim disjE conjE)
         apply (simp_all add: btree_split_child_def kzalloc_def Let_def zero_node_def
          copy_keys.simps copy_children.simps shift_children.simps shift_keys.simps
          set_num_keys_def set_is_leaf_def put_child_def
          key_at_def set_key_def child_at_def set_child_def
          BTREE_MAX_KEYS_def BTREE_ORDER_def eval_nat_numeral int_sets ranges
          split: option.splits)
    done
qed


theorem split_child_result_witness:
  "\<exists>parent' sibling.
     btree_split_child (\<lambda>_. True)
       (Node False 1 [20, 0, 0]
          [Some (Node True 1 [10, 20, 30] [None, None, None, None]),
           Some (Node True 3 [30, 40, 50] [None, None, None, None]), None, None])
       1 \<lparr>calls = 4, live = 4\<rparr>
       = Inr (parent', \<lparr>calls = 5, live = 5\<rparr>)
     \<and> child_at parent' 1 = Inr (Some (Node True 1 [30, 40, 50] [None, None, None, None]))
     \<and> child_at parent' 2 = Inr (Some sibling)
     \<and> is_leaf sibling \<and> num_keys sibling = 1 \<and> key_at sibling 0 = Inr 50
     \<and> key_at parent' 0 = Inr 20 \<and> key_at parent' 1 = Inr 40 \<and> num_keys parent' = 2"
proof -
  let ?full = "Node True 3 [30, 40, 50] [None, None, None, None]"
  let ?parent = "Node False 1 [20, 0, 0]
          [Some (Node True 1 [10, 20, 30] [None, None, None, None]), Some ?full, None, None]"
  have "int (length (keys ?parent)) = BTREE_MAX_KEYS" "int (length (children ?parent)) = BTREE_ORDER"
      "int (length (keys ?full)) = BTREE_MAX_KEYS" "int (length (children ?full)) = BTREE_ORDER"
      "(0::int) \<le> 1" "1 \<le> num_keys ?parent" "num_keys ?parent < BTREE_MAX_KEYS"
      "child_at ?parent 1 = Inr (Some ?full)" "num_keys ?full = BTREE_MAX_KEYS"
      "(\<lambda>_. True) (calls \<lparr>calls = 4, live = 4\<rparr>)" "(1::int) = BTREE_MAX_KEYS div 2"
    by (simp_all add: BTREE_MAX_KEYS_def BTREE_ORDER_def child_at_def)
  from split_child_result [OF this] obtain parent' sibling where
    "btree_split_child (\<lambda>_. True) ?parent 1 \<lparr>calls = 4, live = 4\<rparr>
        = Inr (parent', \<lparr>calls = Suc (calls \<lparr>calls = 4, live = 4\<rparr>), live = Suc (live \<lparr>calls = 4, live = 4\<rparr>)\<rparr>)"
    "is_leaf sibling = is_leaf ?full" "num_keys sibling = BTREE_MAX_KEYS - 1 - 1"
    "\<forall>j \<in> {0..<num_keys sibling}. key_at sibling j = key_at ?full (j + 1 + 1)"
    "child_at parent' 1 = Inr (Some (set_num_keys ?full 1))"
    "child_at parent' (1 + 1) = Inr (Some sibling)"
    "key_at parent' 1 = key_at ?full 1"
    "\<forall>j \<in> {0..<1}. key_at parent' j = key_at ?parent j \<and> child_at parent' j = child_at ?parent j"
    "num_keys parent' = num_keys ?parent + 1"
    by blast
  moreover have "key_at ?full 2 = Inr 50" "key_at ?full 1 = Inr 40" "key_at ?parent 0 = Inr 20"
    by (simp_all add: key_at_def)
  ultimately show ?thesis
    by (intro exI [of _ parent'] exI [of _ sibling])
      (simp add: BTREE_MAX_KEYS_def BTREE_ORDER_def set_num_keys_def int_sets)
qed

text \<open>
  Claim C3, as the specification states it, fails. The internal node with key 20 has
  the full leaf 30, 40, 50 in slot 1. Inserting 40 splits the leaf and promotes its
  median 40, which is less than or equal to the target 40, yet the slot stays 1: the
  target goes into the left half, which becomes 30, 40.
\<close>

theorem equal_key_goes_left_counterexample:
  "child_at (Node False 1 [20, 0, 0]
          [Some (Node True 1 [10, 20, 30] [None, None, None, None]),
           Some (Node True 3 [30, 40, 50] [None, None, None, None]), None, None]) 1
     = Inr (Some (Node True 3 [30, 40, 50] [None, None, None, None]))
   \<and> key_at (Node True 3 [30, 40, 50] [None, None, None, None]) (BTREE_MAX_KEYS div 2) = Inr 40
   \<and> split_if_full (\<lambda>_. True)
       (Node False 1 [20, 0, 0]
          [Some (Node True 1 [10, 20, 30] [None, None, None, None]),
           Some (Node True 3 [30, 40, 50] [None, None, None, None]), None, None])
       40 1 \<lparr>calls = 4, live = 4\<rparr>
     = Inr (Node False 2 [20, 40, 0]
          [Some (Node True 1 [10, 20, 30] [None, None, None, None]),
           Some (Node True 1 [30, 40, 50] [None, None, None, None]),
           Some (Node True 1 [50, 0, 0] [None, None, None, None]), None],
          \<lparr>calls = 5, live = 5\<rparr>, 1)
   \<and> btree_insert_nonfull (\<lambda>_. True)
       (Node False 1 [20, 0, 0]
          [Some (Node True 1 [10, 20, 30] [None, None, None, None]),
           Some (Node True 3 [30, 40, 50] [None, None, None, None]), None, None])
       40 \<lparr>calls = 4, live = 4\<rparr>
     = Inr (Node False 2 [20, 40, 0]
          [Some (Node True 1 [10, 20, 30] [None, None, None, None]),
           Some (Node True 2 [30, 40, 50] [None, None, None, None]),
           Some (Node True 1 [50, 0, 0] [None, None, None, None]), None],
          \<lparr>calls = 5, live = 5\<rparr>)"
  by code_simp

text \<open>
  Claim C3, amended. When \<^verbatim>\<open>btree_insert_nonfull\<close> splits the full child in slot \<open>i\<close> of a
  well-formed internal node with room for one more key, the median of the child becomes
  key \<open>i\<close> of the node, and the slot to descend into is \<open>i + 1\<close> exactly when the median
  is strictly less than the target. A target equal to the median goes into the left
  half, in slot \<open>i\<close>.
\<close>

theorem slot_after_split:
  assumes w: "wf s lo node" and nl: "\<not> is_leaf node" and room: "num_keys node < BTREE_MAX_KEYS"
    and i: "0 \<le> i" "i \<le> num_keys node" and lo: "0 \<le> lo"
    and c: "child_at node i = Inr (Some c)" and full: "num_keys c = BTREE_MAX_KEYS"
    and ok: "ok (calls m)"
  shows "\<exists>node1 m1 median.
      btree_split_child ok node i m = Inr (node1, m1)
      \<and> key_at c (BTREE_MAX_KEYS div 2) = Inr median \<and> key_at node1 i = Inr median
      \<and> split_if_full ok node key i m = Inr (node1, m1, if median < key then i + 1 else i)"
proof -
  from room full have nf: "num_keys node < 3" and f3: "num_keys c = 3"
    by (simp_all add: BTREE_MAX_KEYS_def BTREE_ORDER_def)
  from wf_child [OF w nl i] c have "wf s 1 c" by simp
  then obtain lc nc x y z d0 d1 d2 d3 where cc: "c = Node lc nc [x, y, z] [d0, d1, d2, d3]"
    by (rule wf_shape)
  from split_child_spec [where ok = ok and m = m, OF w nl nf i lo c f3 ok] obtain p' where
    sp: "btree_split_child ok node i m = Inr (p', \<lparr>calls = Suc (calls m), live = Suc (live m)\<rparr>)"
    and med: "key_at p' i = Inr (keys c ! 1)" by blast
  have kc: "key_at c (BTREE_MAX_KEYS div 2) = Inr (keys c ! 1)"
    using cc by (simp add: key_at_def BTREE_MAX_KEYS_def BTREE_ORDER_def)
  have "split_if_full ok node key i m
      = Inr (p', \<lparr>calls = Suc (calls m), live = Suc (live m)\<rparr>, if keys c ! 1 < key then i + 1 else i)"
    using c full sp med by (simp add: split_if_full_def)
  with sp med kc show ?thesis by blast
qed

theorem slot_after_split_witness:
  "\<exists>node1 m1.
     split_if_full (\<lambda>_. True)
       (Node False 1 [20, 0, 0]
          [Some (Node True 1 [10, 20, 30] [None, None, None, None]),
           Some (Node True 3 [30, 40, 50] [None, None, None, None]), None, None])
       40 1 \<lparr>calls = 4, live = 4\<rparr> = Inr (node1, m1, 1)
     \<and> key_at node1 1 = Inr 40
     \<and> split_if_full (\<lambda>_. True)
       (Node False 1 [20, 0, 0]
          [Some (Node True 1 [10, 20, 30] [None, None, None, None]),
           Some (Node True 3 [30, 40, 50] [None, None, None, None]), None, None])
       41 1 \<lparr>calls = 4, live = 4\<rparr> = Inr (node1, m1, 2)"
proof -
  let ?c = "Node True 3 [30, 40, 50] [None, None, None, None]"
  let ?node = "Node False 1 [20, 0, 0]
          [Some (Node True 1 [10, 20, 30] [None, None, None, None]), Some ?c, None, None]"
  have h: "wf False 0 ?node" "\<not> is_leaf ?node" "num_keys ?node < BTREE_MAX_KEYS"
      "(0::int) \<le> 1" "1 \<le> num_keys ?node" "(0::int) \<le> 0"
      "child_at ?node 1 = Inr (Some ?c)" "num_keys ?c = BTREE_MAX_KEYS"
      "(\<lambda>_. True) (calls \<lparr>calls = 4, live = 4\<rparr>)"
    by (simp_all add: wf_Node tree_keys_Node live_keys_def lt_def ranges child_at_def
        BTREE_MAX_KEYS_def BTREE_ORDER_def)
  have k: "key_at ?c (BTREE_MAX_KEYS div 2) = Inr 40"
    by (simp add: key_at_def BTREE_MAX_KEYS_def BTREE_ORDER_def)
  from slot_after_split [OF h, where key = 40 and m = "\<lparr>calls = 4, live = 4\<rparr>"] k
  obtain node1 m1 where
    a: "btree_split_child (\<lambda>_. True) ?node 1 \<lparr>calls = 4, live = 4\<rparr> = Inr (node1, m1)"
      "key_at node1 1 = Inr 40"
      "split_if_full (\<lambda>_. True) ?node 40 1 \<lparr>calls = 4, live = 4\<rparr> = Inr (node1, m1, 1)"
    by auto
  from slot_after_split [OF h, where key = 41 and m = "\<lparr>calls = 4, live = 4\<rparr>"] k a(1)
  have "split_if_full (\<lambda>_. True) ?node 41 1 \<lparr>calls = 4, live = 4\<rparr> = Inr (node1, m1, 2)"
    by auto
  with a show ?thesis by blast
qed

section \<open>Allocation failures\<close>

text \<open>
  Claim C4 does not hold of the code. The tree reached by the insertions
  10, 20, 30, 40, 5, 15 has the root key 20 over the full leaf 5, 10, 15 and the leaf
  30, 40. When the next allocation fails, the insertion of 7 finds the full leaf,
  \<^verbatim>\<open>btree_split_child\<close> returns without having split it, and \<^verbatim>\<open>btree_insert_nonfull\<close>
  goes on into the leaf that still has \<open>BTREE_MAX_KEYS\<close> keys: its shift loop writes
  \<^verbatim>\<open>keys[3]\<close>, past the end of the key array.
\<close>

theorem split_alloc_failure_overflow:
  "insert_all (\<lambda>n. n < 4) [10, 20, 30, 40, 5, 15] (btree_init (\<lambda>n. n < 4) \<lparr>calls = 0, live = 0\<rparr>)
     = Inr (Some \<lparr>root = Some (Node False 1 [20, 0, 0]
               [Some (Node True 3 [5, 10, 15] [None, None, None, None]),
                Some (Node True 2 [30, 40, 0] [None, None, None, None]),
                None, None])\<rparr>, \<lparr>calls = 4, live = 4\<rparr>)
   \<and> btree_insert (\<lambda>n. n < 4)
       (Some \<lparr>root = Some (Node False 1 [20, 0, 0]
               [Some (Node True 3 [5, 10, 15] [None, None, None, None]),
                Some (Node True 2 [30, 40, 0] [None, None, None, None]),
                None, None])\<rparr>) 7 \<lparr>calls = 4, live = 4\<rparr>
     = Inl OutOfBounds"
  by code_simp

text \<open>
  Claim C5, as the specification states it, fails in its second half. \<^verbatim>\<open>btree_insert\<close>
  returns \<^verbatim>\<open>void\<close>: what the caller has after the call is the tree and nothing else.
  With a full root and a failing allocation of the new root the call returns normally,
  as every call that does not fault, and the tree is the one passed in.
\<close>

theorem no_failure_reported_counterexample:
  "btree_insert (\<lambda>n. n < 2) (Some \<lparr>root = Some (Node True 3 [10, 20, 30] [None, None, None, None])\<rparr>)
     40 \<lparr>calls = 2, live = 2\<rparr>
   = Inr (Some \<lparr>root = Some (Node True 3 [10, 20, 30] [None, None, None, None])\<rparr>,
          \<lparr>calls = 3, live = 2\<rparr>)"
  by code_simp

text \<open>
  Claim C5, amended. When the root is full and the allocation of the new root fails,
  \<^verbatim>\<open>btree_insert\<close> returns normally with the tree completely unchanged and no object
  allocated; it gives the caller no indication of the failure.
\<close>

theorem new_root_alloc_failure:
  assumes "root t = Some r" and "num_keys r = BTREE_MAX_KEYS" and "\<not> ok (calls m)"
  shows "btree_insert ok (Some t) key m = Inr (Some t, \<lparr>calls = Suc (calls m), live = live m\<rparr>)"
  using assms by (simp add: btree_insert_def kzalloc_def)

theorem new_root_alloc_failure_witness:
  "btree_insert (\<lambda>_. False) (Some \<lparr>root = Some (Node True 3 [10, 20, 30] [None, None, None, None])\<rparr>)
     40 \<lparr>calls = 2, live = 2\<rparr>
   = Inr (Some \<lparr>root = Some (Node True 3 [10, 20, 30] [None, None, None, None])\<rparr>,
          \<lparr>calls = 3, live = 2\<rparr>)"
  using new_root_alloc_failure [of "\<lparr>root = Some (Node True 3 [10, 20, 30] [None, None, None, None])\<rparr>"
      "Node True 3 [10, 20, 30] [None, None, None, None]" "\<lambda>_. False" "\<lparr>calls = 2, live = 2\<rparr>" 40]
  by (simp add: BTREE_MAX_KEYS_def BTREE_ORDER_def)

end
